theory Spec2Isabelle
  imports Main "HOL-Library.List_Lexorder"
begin

section \<open>JavaScript strings\<close>

text \<open>
  A JavaScript string is a sequence of UTF-16 code units; \<open>length\<close>, \<open>charAt\<close> and
  \<open>substring\<close> count code units. A code unit is a natural number here, so that the
  glyphs above U+00FF which the scanner accepts can be written. ASCII text is written
  \<open>jstr ''...''\<close>; any other code unit is given by its number.
\<close>

type_synonym jstring = "nat list"

definition jstr :: "string \<Rightarrow> jstring" where
  "jstr s = map of_char s"

definition backslash :: jstring where
  "backslash = [92]"

text \<open>\<open>charAt\<close> returns the empty string outside the string.\<close>

definition charAt :: "jstring \<Rightarrow> nat \<Rightarrow> jstring" where
  "charAt s i = (if i < length s then [s ! i] else [])"

text \<open>\<open>substring\<close> clamps both indices to the length and swaps them when the first is larger.\<close>

definition substring :: "jstring \<Rightarrow> nat \<Rightarrow> nat \<Rightarrow> jstring" where
  "substring s a b = take (max a b - min a b) (drop (min a b) s)"

text \<open>
  \<open>/[...]/.test(str)\<close> for a character class without flags: some code unit of \<open>str\<close>
  lies in the class.
\<close>

definition test :: "(nat \<Rightarrow> bool) \<Rightarrow> jstring \<Rightarrow> bool" where
  "test cls str = list_ex cls str"

text \<open>The class \<open>[A-Za-z_]\<close>.\<close>

definition nameStartClass :: "nat \<Rightarrow> bool" where
  "nameStartClass c = ((65 \<le> c \<and> c \<le> 90) \<or> (97 \<le> c \<and> c \<le> 122) \<or> c = 95)"

text \<open>The class \<open>[A-Za-z_0-9]\<close>.\<close>

definition nameClass :: "nat \<Rightarrow> bool" where
  "nameClass c = ((65 \<le> c \<and> c \<le> 90) \<or> (97 \<le> c \<and> c \<le> 122) \<or> c = 95 \<or> (48 \<le> c \<and> c \<le> 57))"

text \<open>
  The class \<open>\s\<close>: tab, line feed, vertical tab, form feed, carriage return, space,
  U+00A0, U+1680, U+2000 to U+200A, U+2028, U+2029, U+202F, U+205F, U+3000, U+FEFF.
\<close>

definition whitespaceClass :: "nat \<Rightarrow> bool" where
  "whitespaceClass c =
     ((9 \<le> c \<and> c \<le> 13) \<or> c = 32 \<or> c = 160 \<or> c = 5760 \<or> (8192 \<le> c \<and> c \<le> 8202) \<or>
      c = 8232 \<or> c = 8233 \<or> c = 8239 \<or> c = 8287 \<or> c = 12288 \<or> c = 65279)"

text \<open>
  The class of one-character operators: \<open>( ) ~ T F ^ !\<close> and the glyphs U+2227 (and),
  U+2228 (or), U+2192 (arrow), U+2194 (double arrow), U+22A4 (top), U+22A5 (bottom) and
  U+00AC (not sign).
\<close>

definition singleOperatorClass :: "nat \<Rightarrow> bool" where
  "singleOperatorClass c =
     (c = 40 \<or> c = 41 \<or> c = 126 \<or> c = 84 \<or> c = 70 \<or> c = 94 \<or> c = 33 \<or>
      c = 8743 \<or> c = 8744 \<or> c = 8594 \<or> c = 8596 \<or> c = 8868 \<or> c = 8869 \<or> c = 172)"

text \<open>
  The class \<open>okayChars\<close> of \<open>checkIntegrity\<close>: letters, digits, the underscore,
  the backslash, \<open>/ < > - ~ ^ ( ) & | = !\<close>, white space and the seven glyphs above.
\<close>

definition okayChars :: "nat \<Rightarrow> bool" where
  "okayChars c =
     (nameClass c \<or> c = 92 \<or> c = 47 \<or> c = 60 \<or> c = 62 \<or> c = 45 \<or> c = 126 \<or> c = 94 \<or>
      c = 40 \<or> c = 41 \<or> whitespaceClass c \<or> c = 38 \<or> c = 124 \<or> c = 61 \<or> c = 33 \<or>
      c = 8743 \<or> c = 8744 \<or> c = 8594 \<or> c = 8596 \<or> c = 8868 \<or> c = 8869 \<or> c = 172)"

section \<open>Values and failures\<close>

text \<open>
  The values an evaluation can return: a boolean, or \<open>undefined\<close> when a variable node
  reads outside the assignment.
\<close>

datatype jsvalue = Boolean bool | Undefined

fun truthy :: "jsvalue \<Rightarrow> bool" where
  "truthy (Boolean b) = b"
| "truthy Undefined = False"

text \<open>
  What the \<open>index\<close> field of a variable token holds after \<open>numberVariables\<close>, and a
  variable node with it: the value of \<open>variableSet[name]\<close>. For an own key of the object
  that is its number. The key \<open>__proto__\<close> is never an own key (see \<open>setKey\<close>), and
  reading it gives the prototype object. \<open>OtherValue\<close> stands for every other value that
  is not a number: \<open>undefined\<close>, or what is read under another name that is not an own
  key. Used as an array index, a value that is not a number reads \<open>undefined\<close>.
\<close>

datatype index = Number nat | ObjectPrototype | OtherValue

text \<open>
  Every way in which \<open>parse\<close> can end without returning. \<open>Thrown\<close> is the object
  \<open>{description, start, end}\<close> of \<open>scannerFail\<close> and \<open>parseError\<close>.
  \<open>AssertionFailed\<close> and \<open>UnreachableCode\<close> are the errors of \<open>assert\<close> and
  \<open>unreachable\<close>, with the text passed to them. \<open>pop\<close> on an empty array returns
  \<open>undefined\<close> in JavaScript and the program would go on with it; the model stops
  there with \<open>PopOfEmptyStack\<close>, so that an underflow shows in the result.
  \<open>TypeError\<close> is the error of reading \<open>.length\<close> of \<open>null\<close>, where a lexeme that
  was announced cannot be read.
\<close>

datatype failure =
    Thrown jstring nat nat
  | AssertionFailed jstring
  | UnreachableCode jstring
  | PopOfEmptyStack
  | TypeError

section \<open>The nodes of the syntax tree\<close>

datatype ast =
    trueNode
  | falseNode
  | negateNode ast
  | andNode ast ast
  | orNode ast ast
  | impliesNode ast ast
  | iffNode ast ast
  | variableNode index

text \<open>
  \<open>evaluate\<close>. \<open>a && b\<close> is \<open>a\<close> when \<open>a\<close> is falsy and \<open>b\<close> otherwise, \<open>a || b\<close> is \<open>a\<close>
  when \<open>a\<close> is truthy and \<open>b\<close> otherwise, \<open>!a\<close> is always a boolean, and \<open>===\<close> compares
  two of these values by identity. \<open>assignment[index]\<close> is \<open>undefined\<close> when the index
  is not a number inside the array.
\<close>

fun evaluate :: "ast \<Rightarrow> bool list \<Rightarrow> jsvalue" where
  "evaluate trueNode assignment = Boolean True"
| "evaluate falseNode assignment = Boolean False"
| "evaluate (negateNode underlying) assignment = Boolean (\<not> truthy (evaluate underlying assignment))"
| "evaluate (andNode lhs rhs) assignment =
     (if truthy (evaluate lhs assignment) then evaluate rhs assignment else evaluate lhs assignment)"
| "evaluate (orNode lhs rhs) assignment =
     (if truthy (evaluate lhs assignment) then evaluate lhs assignment else evaluate rhs assignment)"
| "evaluate (impliesNode lhs rhs) assignment =
     (if \<not> truthy (evaluate lhs assignment) then Boolean True else evaluate rhs assignment)"
| "evaluate (iffNode lhs rhs) assignment =
     Boolean (evaluate lhs assignment = evaluate rhs assignment)"
| "evaluate (variableNode i) assignment =
     (case i of
        Number n \<Rightarrow> if n < length assignment then Boolean (assignment ! n) else Undefined
      | ObjectPrototype \<Rightarrow> Undefined
      | OtherValue \<Rightarrow> Undefined)"

text \<open>
  \<open>toString\<close>. \<open>variables[index]\<close> is \<open>undefined\<close> when the index is not a number inside
  the array, and string concatenation writes it as the text \<open>undefined\<close>.
\<close>

fun toString :: "ast \<Rightarrow> jstring list \<Rightarrow> jstring" where
  "toString trueNode variables = jstr ''&#8868;''"
| "toString falseNode variables = jstr ''&#8869;''"
| "toString (negateNode underlying) variables = jstr ''&not;'' @ toString underlying variables"
| "toString (andNode lhs rhs) variables =
     jstr ''('' @ toString lhs variables @ jstr '' &and; '' @ toString rhs variables @ jstr '')''"
| "toString (orNode lhs rhs) variables =
     jstr ''('' @ toString lhs variables @ jstr '' &or; '' @ toString rhs variables @ jstr '')''"
| "toString (impliesNode lhs rhs) variables =
     jstr ''('' @ toString lhs variables @ jstr '' &rarr; '' @ toString rhs variables @ jstr '')''"
| "toString (iffNode lhs rhs) variables =
     jstr ''('' @ toString lhs variables @ jstr '' &harr; '' @ toString rhs variables @ jstr '')''"
| "toString (variableNode i) variables =
     (case i of
        Number n \<Rightarrow> if n < length variables then variables ! n else jstr ''undefined''
      | ObjectPrototype \<Rightarrow> jstr ''undefined''
      | OtherValue \<Rightarrow> jstr ''undefined'')"

record parseResult =
  ast :: ast
  variables :: "jstring list"

section \<open>Enumerating the assignments\<close>

text \<open>
  \<open>nextAssignment\<close> mutates the array and returns whether it found a next assignment;
  the model returns both. The index of the search loop goes down to \<open>-1\<close>, so it is
  an integer.
\<close>

function findFlipIndex :: "bool list \<Rightarrow> int \<Rightarrow> int" where
  "findFlipIndex assignment flipIndex =
     (if flipIndex \<ge> 0 \<and> assignment ! nat flipIndex
      then findFlipIndex assignment (flipIndex - 1) else flipIndex)"
  by pat_completeness auto
termination
  by (relation "measure (\<lambda>(assignment, flipIndex). nat (flipIndex + 1))") auto

function setFalseFrom :: "bool list \<Rightarrow> nat \<Rightarrow> bool list" where
  "setFalseFrom assignment i =
     (if i < length assignment then setFalseFrom (assignment[i := False]) (i + 1) else assignment)"
  by pat_completeness auto
termination
  by (relation "measure (\<lambda>(assignment, i). length assignment - i)") auto

definition nextAssignment :: "bool list \<Rightarrow> bool \<times> bool list" where
  "nextAssignment assignment =
     (let flipIndex = findFlipIndex assignment (int (length assignment) - 1) in
      if flipIndex = -1 then (False, assignment)
      else (True, setFalseFrom (assignment[nat flipIndex := True]) (nat flipIndex + 1)))"

text \<open>
  The number which an assignment spells when it is read as a binary numeral, index 0 being
  the most significant bit. This is the measure of the enumeration, not code of the
  program.
\<close>

fun binaryValue :: "bool list \<Rightarrow> nat" where
  "binaryValue [] = 0"
| "binaryValue (b # bs) = (if b then 2 ^ length bs else 0) + binaryValue bs"

lemma binaryValue_append:
  "binaryValue (xs @ ys) = binaryValue xs * 2 ^ length ys + binaryValue ys"
  by (induction xs) (simp_all add: power_add algebra_simps)

lemma binaryValue_less: "binaryValue xs < 2 ^ length xs"
  by (induction xs) simp_all

lemma binaryValue_replicate_True: "binaryValue (replicate k True) + 1 = 2 ^ k"
  by (induction k) simp_all

lemma binaryValue_replicate_False: "binaryValue (replicate k False) = 0"
  by (induction k) simp_all

lemma setFalseFrom_eq:
  "i \<le> length a \<Longrightarrow> setFalseFrom a i = take i a @ replicate (length a - i) False"
proof (induction a i rule: setFalseFrom.induct)
  case (1 assignment i)
  show ?case
  proof (cases "i < length assignment")
    case True
    then have "setFalseFrom assignment i = setFalseFrom (assignment[i := False]) (i + 1)"
      by simp
    also have "\<dots> = take (i + 1) (assignment[i := False]) @ replicate (length assignment - (i + 1)) False"
      using 1 True by simp
    also have "\<dots> = take i assignment @ replicate (length assignment - i) False"
    proof -
      from True obtain m where m: "length assignment - i = Suc m" "length assignment - (i + 1) = m"
        by (cases "length assignment - i") auto
      show ?thesis using True m by (simp add: take_Suc_conv_app_nth)
    qed
    finally show ?thesis .
  next
    case False
    with 1(2) show ?thesis by simp
  qed
qed

lemma findFlipIndex_trailing:
  "findFlipIndex (pre @ False # replicate k True) (int (length pre) + int j) = int (length pre)"
  if "j \<le> k"
  using that
proof (induction j)
  case 0
  then show ?case by (simp add: nth_append)
next
  case (Suc j)
  have "(pre @ False # replicate k True) ! nat (int (length pre) + int (Suc j))"
    using Suc.prems by (simp add: nth_append nat_add_distrib)
  then have "findFlipIndex (pre @ False # replicate k True) (int (length pre) + int (Suc j))
      = findFlipIndex (pre @ False # replicate k True) (int (length pre) + int (Suc j) - 1)"
    by (subst findFlipIndex.simps) simp
  with Suc show ?case by simp
qed

lemma findFlipIndex_all_True:
  "j \<le> k \<Longrightarrow> findFlipIndex (replicate k True) (int j - 1) = -1"
proof (induction j)
  case 0
  then show ?case by simp
next
  case (Suc j)
  have "findFlipIndex (replicate k True) (int (Suc j) - 1) = findFlipIndex (replicate k True) (int (Suc j) - 1 - 1)"
    using Suc.prems by (subst findFlipIndex.simps) simp
  with Suc show ?case by simp
qed

lemma nextAssignment_all_True:
  "nextAssignment (replicate k True) = (False, replicate k True)"
  using findFlipIndex_all_True [of k k] by (simp add: nextAssignment_def)

lemma nextAssignment_flip:
  "nextAssignment (pre @ False # replicate k True) = (True, pre @ True # replicate k False)"
proof -
  let ?a = "pre @ False # replicate k True"
  have f: "findFlipIndex ?a (int (length ?a) - 1) = int (length pre)"
    using findFlipIndex_trailing [of k k pre] by simp
  have "setFalseFrom (?a[length pre := True]) (length pre + 1) = pre @ True # replicate k False"
    by (subst setFalseFrom_eq) (simp_all add: list_update_append)
  with f show ?thesis
    by (simp add: nextAssignment_def Let_def del: findFlipIndex.simps)
qed

lemma assignment_cases:
  "(\<exists>pre k. a = pre @ False # replicate k True) \<or> a = replicate (length a) True"
proof (induction a rule: rev_induct)
  case Nil
  then show ?case by simp
next
  case (snoc b a)
  show ?case
  proof (cases b)
    case False
    then have "a @ [b] = a @ False # replicate 0 True" by simp
    then show ?thesis by blast
  next
    case True
    from snoc show ?thesis
    proof
      assume "\<exists>pre k. a = pre @ False # replicate k True"
      then obtain pre k where "a = pre @ False # replicate k True" by blast
      with True have "a @ [b] = pre @ False # replicate (Suc k) True"
        by (simp add: replicate_append_same)
      then show ?thesis by blast
    next
      assume "a = replicate (length a) True"
      then obtain n where n: "a = replicate n True" ..
      with True have "a @ [b] = replicate (length (a @ [b])) True"
        by (simp add: replicate_append_same)
      then show ?thesis by blast
    qed
  qed
qed


lemma nextAssignment_step:
  assumes "fst (nextAssignment a)"
  shows "length (snd (nextAssignment a)) = length a"
    and "binaryValue (snd (nextAssignment a)) = binaryValue a + 1"
proof -
  from assignment_cases [of a] assms obtain pre k where a: "a = pre @ False # replicate k True"
    by (metis fst_conv nextAssignment_all_True)
  show "length (snd (nextAssignment a)) = length a"
    by (simp add: a nextAssignment_flip)
  have "binaryValue (False # replicate k True) + 1 = binaryValue (True # replicate k False)"
    using binaryValue_replicate_True [of k] by (simp add: binaryValue_replicate_False)
  then show "binaryValue (snd (nextAssignment a)) = binaryValue a + 1"
    by (simp add: a nextAssignment_flip binaryValue_append)
qed

lemma nextAssignment_done:
  assumes "\<not> fst (nextAssignment a)"
  shows "binaryValue a + 1 = 2 ^ length a"
proof -
  from assignment_cases [of a] assms have "a = replicate (length a) True"
    by (metis fst_conv nextAssignment_flip)
  then show ?thesis
    using binaryValue_replicate_True [of "length a"] by simp
qed

text \<open>
  \<open>generateTruthTable\<close> calls \<open>callback(assignment, parseResult.ast.evaluate(assignment))\<close>
  in a \<open>do ... while (nextAssignment(assignment))\<close> loop. The model returns the list of
  the pairs passed to the callback, in the order of the calls, each assignment as it is at
  the time of its call. The loop ends because the binary value of the assignment grows.
\<close>

function truthTableLoop :: "ast \<Rightarrow> bool list \<Rightarrow> (bool list \<times> jsvalue) list" where
  "truthTableLoop node assignment =
     (assignment, evaluate node assignment) #
     (if fst (nextAssignment assignment)
      then truthTableLoop node (snd (nextAssignment assignment)) else [])"
  by pat_completeness auto
termination
proof (relation "measure (\<lambda>(node, assignment). 2 ^ length assignment - binaryValue assignment)")
  show "wf (measure (\<lambda>(node :: ast, assignment). 2 ^ length assignment - binaryValue assignment))"
    by simp
next
  fix node :: ast and assignment
  assume "fst (nextAssignment assignment)"
  then show "((node, snd (nextAssignment assignment)), (node, assignment))
      \<in> measure (\<lambda>(node, assignment). 2 ^ length assignment - binaryValue assignment)"
    using binaryValue_less [of assignment] by (simp add: nextAssignment_step)
qed

declare truthTableLoop.simps [simp del]

definition generateTruthTable :: "parseResult \<Rightarrow> (bool list \<times> jsvalue) list" where
  "generateTruthTable parseResult =
     truthTableLoop (ast parseResult) (replicate (length (variables parseResult)) False)"

lemma truthTableLoop_rows:
  "length (truthTableLoop node a) = 2 ^ length a - binaryValue a \<and>
   (\<forall>k < 2 ^ length a - binaryValue a.
      length (fst (truthTableLoop node a ! k)) = length a \<and>
      binaryValue (fst (truthTableLoop node a ! k)) = binaryValue a + k \<and>
      snd (truthTableLoop node a ! k) = evaluate node (fst (truthTableLoop node a ! k)))"
proof (induction node a rule: truthTableLoop.induct)
  case (1 node a)
  show ?case
  proof (cases "fst (nextAssignment a)")
    case False
    then have "truthTableLoop node a = [(a, evaluate node a)]"
      by (subst truthTableLoop.simps) simp
    moreover have "2 ^ length a - binaryValue a = 1"
      using nextAssignment_done [OF False] by simp
    ultimately show ?thesis by simp
  next
    case True
    let ?a' = "snd (nextAssignment a)"
    have unfold: "truthTableLoop node a = (a, evaluate node a) # truthTableLoop node ?a'"
      using True by (subst truthTableLoop.simps) simp
    have len: "length ?a' = length a" and val: "binaryValue ?a' = binaryValue a + 1"
      using nextAssignment_step [OF True] by simp_all
    have lt: "binaryValue a + 1 < 2 ^ length a"
      using binaryValue_less [of ?a'] len val by simp
    note IH = 1 [OF True, unfolded len val]
    have "length (truthTableLoop node a) = 2 ^ length a - binaryValue a"
      using IH lt unfold by simp
    moreover have "length (fst (truthTableLoop node a ! k)) = length a \<and>
        binaryValue (fst (truthTableLoop node a ! k)) = binaryValue a + k \<and>
        snd (truthTableLoop node a ! k) = evaluate node (fst (truthTableLoop node a ! k))"
      if "k < 2 ^ length a - binaryValue a" for k
    proof (cases k)
      case 0
      then show ?thesis by (simp add: unfold)
    next
      case (Suc j)
      with that have "j < 2 ^ length a - (binaryValue a + 1)" by simp
      with IH show ?thesis by (simp add: unfold Suc)
    qed
    ultimately show ?thesis by blast
  qed
qed

lemma binaryValue_inj:
  "length a = length b \<Longrightarrow> binaryValue a = binaryValue b \<Longrightarrow> a = b"
proof (induction a b rule: list_induct2)
  case Nil
  then show ?case by simp
next
  case (Cons x xs y ys)
  have "binaryValue xs < 2 ^ length xs" "binaryValue ys < 2 ^ length xs"
    using binaryValue_less [of xs] binaryValue_less [of ys] Cons.hyps by simp_all
  with Cons.prems Cons.hyps have "x = y \<and> binaryValue xs = binaryValue ys"
    by (auto split: if_splits)
  with Cons.IH show ?case by simp
qed

text \<open>
  Claim C1. For every syntax tree and every list of \<open>n\<close> variables, \<open>generateTruthTable\<close>
  calls the callback exactly \<open>2 ^ n\<close> times; the \<open>k\<close>-th call (from 0) receives the
  assignment of length \<open>n\<close> whose binary value, index 0 most significant, is \<open>k\<close>, together
  with the value of the tree under it; the assignments are pairwise distinct and are
  exactly the boolean vectors of length \<open>n\<close>; with no variable there is one call, with the
  empty assignment.
\<close>

theorem generateTruthTable_counts_in_binary:
  "length (generateTruthTable \<lparr>ast = node, variables = vs\<rparr>) = 2 ^ length vs \<and>
   (\<forall>k < 2 ^ length vs.
      length (fst (generateTruthTable \<lparr>ast = node, variables = vs\<rparr> ! k)) = length vs \<and>
      binaryValue (fst (generateTruthTable \<lparr>ast = node, variables = vs\<rparr> ! k)) = k \<and>
      snd (generateTruthTable \<lparr>ast = node, variables = vs\<rparr> ! k) =
        evaluate node (fst (generateTruthTable \<lparr>ast = node, variables = vs\<rparr> ! k))) \<and>
   distinct (map fst (generateTruthTable \<lparr>ast = node, variables = vs\<rparr>)) \<and>
   set (map fst (generateTruthTable \<lparr>ast = node, variables = vs\<rparr>)) = {a. length a = length vs} \<and>
   (vs = [] \<longrightarrow> generateTruthTable \<lparr>ast = node, variables = vs\<rparr> = [([], evaluate node [])])"
proof -
  let ?n = "length vs"
  let ?rows = "generateTruthTable \<lparr>ast = node, variables = vs\<rparr>"
  have rows_def: "?rows = truthTableLoop node (replicate ?n False)"
    by (simp add: generateTruthTable_def)
  note R = truthTableLoop_rows [of node "replicate ?n False", folded rows_def,
      unfolded binaryValue_replicate_False, simplified]
  have len: "length ?rows = 2 ^ ?n" using R by simp
  have row: "length (fst (?rows ! k)) = ?n \<and> binaryValue (fst (?rows ! k)) = k \<and>
      snd (?rows ! k) = evaluate node (fst (?rows ! k))" if "k < 2 ^ ?n" for k
    using R that by simp
  have dist: "distinct (map fst ?rows)"
  proof (rule distinct_conv_nth [THEN iffD2], intro allI impI)
    fix i j assume "i < length (map fst ?rows)" "j < length (map fst ?rows)" "i \<noteq> j"
    then show "map fst ?rows ! i \<noteq> map fst ?rows ! j"
      using row [of i] row [of j] len by auto
  qed
  have cover: "set (map fst ?rows) = {a. length a = ?n}"
  proof (intro set_eqI iffI)
    fix a :: "bool list" assume "a \<in> set (map fst ?rows)"
    then obtain k where "k < 2 ^ ?n" "a = fst (?rows ! k)"
      using len by (auto simp: in_set_conv_nth)
    then show "a \<in> {a. length a = ?n}" using row [of k] by simp
  next
    fix a :: "bool list" assume "a \<in> {a. length a = ?n}"
    then have la: "length a = ?n" by simp
    then have k: "binaryValue a < 2 ^ ?n" using binaryValue_less [of a] by simp
    from row [OF k] la have "fst (?rows ! binaryValue a) = a"
      by (intro binaryValue_inj) simp_all
    with k len show "a \<in> set (map fst ?rows)"
      by (metis length_map nth_map nth_mem)
  qed
  have empty: "?rows = [([], evaluate node [])]" if "vs = []"
  proof -
    from that len have "length ?rows = 1" by simp
    then obtain r where r: "?rows = [r]" by (cases ?rows) auto
    from row [of 0] that r show ?thesis by (cases r) simp
  qed
  from len row dist cover empty show ?thesis by blast
qed

theorem generateTruthTable_counts_in_binary_witness:
  "map fst (generateTruthTable \<lparr>ast = andNode (variableNode (Number 0)) (variableNode (Number 1)),
      variables = [jstr ''p'', jstr ''q'']\<rparr>) ! 2 = [True, False]"
proof -
  let ?rows = "generateTruthTable \<lparr>ast = andNode (variableNode (Number 0)) (variableNode (Number 1)),
      variables = [jstr ''p'', jstr ''q'']\<rparr>"
  have k: "(2::nat) < 2 ^ length [jstr ''p'', jstr ''q'']" by simp
  from generateTruthTable_counts_in_binary
    [of "andNode (variableNode (Number 0)) (variableNode (Number 1))" "[jstr ''p'', jstr ''q'']"]
  have "length ?rows = 4" and "length (fst (?rows ! 2)) = 2" and "binaryValue (fst (?rows ! 2)) = 2"
    using k by simp_all
  then have "fst (?rows ! 2) = [True, False]"
    by (intro binaryValue_inj) simp_all
  then show ?thesis using \<open>length ?rows = 4\<close> by simp
qed

section \<open>The scanner\<close>

definition kScannerConstants_EOF :: jstring where
  "kScannerConstants_EOF = jstr ''$''"

text \<open>
  A token. The \<open>index\<close> field is present in variable tokens only; it holds the name of
  the variable after the preliminary scan and the value of \<open>variableSet[name]\<close> after
  \<open>numberVariables\<close>, so the type of its content is a parameter.
\<close>

record 'i token =
  type :: jstring
  index :: "'i option"
  start :: nat
  end' :: nat

definition translate :: "jstring \<Rightarrow> jstring" where
  "translate input =
     (if input = jstr ''&&'' \<or> input = jstr ''and'' \<or> input = [8743] \<or>
         input = backslash @ jstr ''land'' \<or> input = backslash @ jstr ''wedge'' \<or>
         input = jstr ''^'' then jstr ''/'' @ backslash
      else if input = jstr ''||'' \<or> input = jstr ''or'' \<or> input = [8744] \<or>
         input = backslash @ jstr ''lor'' \<or> input = backslash @ jstr ''vee'' then backslash @ jstr ''/''
      else if input = jstr ''=>'' \<or> input = [8594] \<or> input = jstr ''implies'' \<or>
         input = backslash @ jstr ''to'' \<or> input = backslash @ jstr ''rightarrow'' \<or>
         input = backslash @ jstr ''Rightarrow'' then jstr ''->''
      else if input = jstr ''<=>'' \<or> input = [8596] \<or> input = jstr ''iff'' \<or>
         input = backslash @ jstr ''leftrightarrow'' \<or>
         input = backslash @ jstr ''Leftrightarrow'' then jstr ''<->''
      else if input = jstr ''not'' \<or> input = jstr ''!'' \<or> input = [172] \<or>
         input = backslash @ jstr ''lnot'' \<or> input = backslash @ jstr ''neg'' then jstr ''~''
      else if input = [8868] \<or> input = jstr ''true'' \<or> input = backslash @ jstr ''top'' then jstr ''T''
      else if input = [8869] \<or> input = jstr ''false'' \<or> input = backslash @ jstr ''bot'' then jstr ''F''
      else input)"

definition makeIdentityToken :: "jstring \<Rightarrow> nat \<Rightarrow> 'i token" where
  "makeIdentityToken str i = \<lparr>type = translate str, index = None, start = i, end' = i + length str\<rparr>"

definition makeVariableToken :: "jstring \<Rightarrow> nat \<Rightarrow> nat \<Rightarrow> jstring token" where
  "makeVariableToken varIndex s e = \<lparr>type = jstr ''variable'', index = Some varIndex, start = s, end' = e\<rparr>"

definition isReservedWord :: "jstring \<Rightarrow> bool" where
  "isReservedWord token =
     (token = jstr ''T'' \<or> token = jstr ''F'' \<or> token = jstr ''and'' \<or> token = jstr ''or'' \<or>
      token = jstr ''not'' \<or> token = jstr ''iff'' \<or> token = jstr ''implies'' \<or>
      token = jstr ''true'' \<or> token = jstr ''false'')"

lemma test_charAt: "test cls (charAt s i) \<longleftrightarrow> i < length s \<and> cls (s ! i)"
  by (simp add: test_def charAt_def)

text \<open>The loop of \<open>tryReadVariableName\<close> that collects the characters of the name.\<close>

function readNameChars :: "jstring \<Rightarrow> nat \<Rightarrow> jstring \<Rightarrow> jstring" where
  "readNameChars input i result =
     (if test nameClass (charAt input i)
      then readNameChars input (i + 1) (result @ charAt input i) else result)"
  by pat_completeness auto
termination
  by (relation "measure (\<lambda>(input, i, result). length input - i)") (auto simp: test_charAt)

declare readNameChars.simps [simp del]

definition tryReadVariableName :: "jstring \<Rightarrow> nat \<Rightarrow> jstring option" where
  "tryReadVariableName input i =
     (if \<not> test nameStartClass (charAt input i) then None
      else let result = readNameChars input i [] in
        if isReservedWord result then None else Some result)"

definition isVariableStart :: "jstring \<Rightarrow> nat \<Rightarrow> bool" where
  "isVariableStart input i = (tryReadVariableName input i \<noteq> None)"

text \<open>
  \<open>variableSet\<close> is a plain object used as a set of names. The model keeps the list of its
  own keys, in the order in which they were added, which is the order in which
  \<open>for (var key in variableSet)\<close> visits them (no name is an integer). The assignment
  \<open>variableSet[variableName] = true\<close> adds the key unless it is already there, with one
  exception: under the name \<open>__proto__\<close> the assignment calls the setter that every plain
  object inherits, which ignores a value that is neither an object nor \<open>null\<close>, and no
  key is added.
\<close>

definition setKey :: "jstring list \<Rightarrow> jstring \<Rightarrow> jstring list" where
  "setKey variableSet variableName =
     (if variableName = jstr ''__proto__'' then variableSet
      else if variableName \<in> set variableSet then variableSet
      else variableSet @ [variableName])"

definition scanVariable :: "jstring \<Rightarrow> nat \<Rightarrow> jstring list \<Rightarrow> (jstring \<times> jstring list) option" where
  "scanVariable input i variableSet =
     (case tryReadVariableName input i of
        None \<Rightarrow> None
      | Some variableName \<Rightarrow> Some (variableName, setKey variableSet variableName))"

text \<open>
  \<open>tryReadOperator\<close>. The test \<open>index < input.length - 14\<close> is written
  \<open>i + 14 < length input\<close>, which is the same for natural numbers.
\<close>

definition tryReadOperator :: "jstring \<Rightarrow> nat \<Rightarrow> jstring option" where
  "tryReadOperator input i =
     (let fifteenChars = substring input i (i + 15);
          elevenChars = substring input i (i + 11);
          sevenChars = substring input i (i + 7);
          sixChars = substring input i (i + 6);
          fiveChars = substring input i (i + 5);
          fourChars = substring input i (i + 4);
          threeChars = substring input i (i + 3);
          twoChars = substring input i (i + 2)
      in
      if i + 14 < length input \<and>
         (fifteenChars = backslash @ jstr ''leftrightarrow'' \<or>
          fifteenChars = backslash @ jstr ''Leftrightarrow'') then Some fifteenChars
      else if i + 10 < length input \<and>
         (elevenChars = backslash @ jstr ''rightarrow'' \<or>
          elevenChars = backslash @ jstr ''Rightarrow'') then Some elevenChars
      else if i + 6 < length input \<and> sevenChars = jstr ''implies'' then Some sevenChars
      else if i + 5 < length input \<and> sixChars = backslash @ jstr ''wedge'' then Some sixChars
      else if i + 4 < length input \<and>
         (fiveChars = jstr ''false'' \<or> fiveChars = backslash @ jstr ''lnot'' \<or>
          fiveChars = backslash @ jstr ''lneg'' \<or> fiveChars = backslash @ jstr ''land'') then Some fiveChars
      else if i + 3 < length input \<and>
         (fourChars = jstr ''true'' \<or> fourChars = backslash @ jstr ''top'' \<or>
          fourChars = backslash @ jstr ''bot'' \<or> fourChars = backslash @ jstr ''lor'' \<or>
          fourChars = backslash @ jstr ''vee'' \<or> fourChars = backslash @ jstr ''neg'') then Some fourChars
      else if i + 2 < length input \<and>
         (threeChars = jstr ''<->'' \<or> threeChars = jstr ''and'' \<or>
          threeChars = jstr ''<=>'' \<or> threeChars = jstr ''not'' \<or>
          threeChars = jstr ''iff'' \<or> threeChars = backslash @ jstr ''to'') then Some threeChars
      else if i + 1 < length input \<and>
         (twoChars = jstr ''/'' @ backslash \<or> twoChars = backslash @ jstr ''/'' \<or>
          twoChars = jstr ''->'' \<or> twoChars = jstr ''&&'' \<or> twoChars = jstr ''||'' \<or>
          twoChars = jstr ''or'' \<or> twoChars = jstr ''=>'') then Some twoChars
      else if test singleOperatorClass (charAt input i) then Some (charAt input i)
      else None)"

definition isOperatorStart :: "jstring \<Rightarrow> nat \<Rightarrow> bool" where
  "isOperatorStart input i = (tryReadOperator input i \<noteq> None)"

definition isWhitespace :: "jstring \<Rightarrow> bool" where
  "isWhitespace char = test whitespaceClass char"

definition scannerFail :: "jstring \<Rightarrow> nat \<Rightarrow> nat \<Rightarrow> failure" where
  "scannerFail why s e = Thrown why s e"

lemma readNameChars_eq:
  "readNameChars input i result = result @ takeWhile nameClass (drop i input)"
proof (induction input i result rule: readNameChars.induct)
  case (1 input i result)
  show ?case
  proof (cases "test nameClass (charAt input i)")
    case True
    then have i: "i < length input" "nameClass (input ! i)" by (simp_all add: test_charAt)
    then have "drop i input = input ! i # drop (i + 1) input"
      by (simp add: Cons_nth_drop_Suc)
    with 1 [OF True] True i show ?thesis
      by (subst readNameChars.simps) (simp add: charAt_def)
  next
    case False
    then have "takeWhile nameClass (drop i input) = []"
      by (cases "drop i input") (auto simp: test_charAt hd_drop_conv_nth nth_via_drop)
    with False show ?thesis
      by (subst readNameChars.simps) simp
  qed
qed

lemma nameStartClass_nameClass: "nameStartClass c \<Longrightarrow> nameClass c"
  by (auto simp: nameStartClass_def nameClass_def)

lemma tryReadVariableName_Some:
  assumes "tryReadVariableName input i = Some v"
  shows "i < length input" and "v \<noteq> []" and "v = takeWhile nameClass (drop i input)"
    and "\<not> isReservedWord v" and "nameStartClass (input ! i)"
proof -
  from assms have t: "test nameStartClass (charAt input i)"
    and v: "v = readNameChars input i []" and r: "\<not> isReservedWord v"
    by (auto simp: tryReadVariableName_def Let_def split: if_splits)
  from t show i: "i < length input" and c: "nameStartClass (input ! i)"
    by (simp_all add: test_charAt)
  from v show v': "v = takeWhile nameClass (drop i input)" by (simp add: readNameChars_eq)
  from i have "drop i input = input ! i # drop (i + 1) input"
    by (simp add: Cons_nth_drop_Suc)
  with v' c show "v \<noteq> []" by (simp add: nameStartClass_nameClass)
  from r show "\<not> isReservedWord v" .
qed

lemma if_SomeE:
  assumes "(if c then Some a else e) = Some t"
  obtains "c" and "a = t" | "e = Some t"
  using assms by (cases c) simp_all

lemma jstr_not_Nil: "s \<noteq> [] \<Longrightarrow> jstr s \<noteq> []"
  by (simp add: jstr_def)

lemma tryReadOperator_Some:
  assumes "tryReadOperator input i = Some t"
  shows "i < length input" and "t \<noteq> []"
proof -
  from assms show "i < length input"
    unfolding tryReadOperator_def Let_def
    by (elim if_SomeE) (auto simp: test_def charAt_def split: if_splits)
  from assms show "t \<noteq> []"
    unfolding tryReadOperator_def Let_def
    by (elim if_SomeE) (auto simp: test_def backslash_def charAt_def jstr_not_Nil split: if_splits)
qed

text \<open>
  The loop of \<open>preliminaryScan\<close>, over the input with the end marker appended. \<open>i\<close> is the
  position, \<open>variableSet\<close> the names seen, \<open>tokens\<close> the tokens so far.
\<close>

function preliminaryScanLoop ::
  "jstring \<Rightarrow> nat \<Rightarrow> jstring list \<Rightarrow> jstring token list \<Rightarrow> failure + (jstring token list \<times> jstring list)" where
  "preliminaryScanLoop input i variableSet tokens =
     (let curr = charAt input i in
      if curr = kScannerConstants_EOF then Inr (tokens @ [makeIdentityToken curr i], variableSet)
      else if isVariableStart input i then
        (case scanVariable input i variableSet of
           None \<Rightarrow> Inl TypeError
         | Some (variable, variableSet') \<Rightarrow>
             preliminaryScanLoop input (i + length variable) variableSet'
               (tokens @ [makeVariableToken variable i (i + length variable)]))
      else if isOperatorStart input i then
        (case tryReadOperator input i of
           None \<Rightarrow> Inl TypeError
         | Some token \<Rightarrow>
             preliminaryScanLoop input (i + length token) variableSet
               (tokens @ [makeIdentityToken token i]))
      else if isWhitespace (charAt input i) then preliminaryScanLoop input (i + 1) variableSet tokens
      else Inl (scannerFail
        (jstr ''O car'' @ [225] @ jstr ''cter '' @ charAt input i @
         jstr '' n'' @ [227] @ jstr ''o deveria estar aqui.'') i (i + 1)))"
  by pat_completeness auto
termination
proof (relation "measure (\<lambda>(input, i, variableSet, tokens). length input - i)", goal_cases)
  case 1
  show ?case by simp
next
  case (2 input i variableSet tokens curr x2 variable variableSet')
  then have "tryReadVariableName input i = Some variable"
    by (auto simp: scanVariable_def split: option.splits)
  from tryReadVariableName_Some(1,2) [OF this] show ?case
    by (cases variable) simp_all
next
  case (3 input i variableSet tokens curr token)
  then have "tryReadOperator input i = Some token" by simp
  from tryReadOperator_Some [OF this] show ?case
    by (cases token) simp_all
next
  case (4 input i variableSet tokens curr)
  then have "i < length input" by (simp add: isWhitespace_def test_charAt)
  then show ?case by simp
qed

declare preliminaryScanLoop.simps [simp del]

definition preliminaryScan :: "jstring \<Rightarrow> failure + (jstring token list \<times> jstring list)" where
  "preliminaryScan input = preliminaryScanLoop (input @ kScannerConstants_EOF) 0 [] []"

function checkIntegrityLoop :: "jstring \<Rightarrow> nat \<Rightarrow> failure + unit" where
  "checkIntegrityLoop input i =
     (if i < length input then
        (if \<not> test okayChars (charAt input i)
         then Inl (scannerFail (jstr ''Illegal character'') i (i + 1))
         else checkIntegrityLoop input (i + 1))
      else Inr ())"
  by pat_completeness auto
termination
  by (relation "measure (\<lambda>(input, i). length input - i)") auto

declare checkIntegrityLoop.simps [simp del]

definition checkIntegrity :: "jstring \<Rightarrow> failure + unit" where
  "checkIntegrity input = checkIntegrityLoop input 0"

text \<open>
  \<open>numberVariables\<close>. The keys of the object are sorted with the default order of
  \<open>Array.prototype.sort\<close>, the lexicographic order of the code units. The loop
  \<open>variableSet[variables[i]] = i\<close> then stores its number under each key, and each
  variable token gets \<open>variableSet[name]\<close> as its index.
\<close>

definition invertVariables :: "jstring list \<Rightarrow> (jstring \<rightharpoonup> nat)" where
  "invertVariables names =
     fold (\<lambda>i variableSet. variableSet(names ! i \<mapsto> i)) [0..<length names] Map.empty"

definition getKey :: "(jstring \<rightharpoonup> nat) \<Rightarrow> jstring \<Rightarrow> index" where
  "getKey variableSet name =
     (case variableSet name of
        Some i \<Rightarrow> Number i
      | None \<Rightarrow> if name = jstr ''__proto__'' then ObjectPrototype else OtherValue)"

definition renumberToken :: "(jstring \<rightharpoonup> nat) \<Rightarrow> jstring token \<Rightarrow> index token" where
  "renumberToken variableSet token =
     (if type token = jstr ''variable''
      then \<lparr>type = type token,
            index = (case index token of None \<Rightarrow> Some OtherValue | Some name \<Rightarrow> Some (getKey variableSet name)),
            start = start token, end' = end' token\<rparr>
      else \<lparr>type = type token, index = None, start = start token, end' = end' token\<rparr>)"

definition numberVariables :: "jstring token list \<times> jstring list \<Rightarrow> index token list \<times> jstring list" where
  "numberVariables preliminary =
     (let names = sort (snd preliminary);
          variableSet = invertVariables names
      in (map (renumberToken variableSet) (fst preliminary), names))"

definition scan :: "jstring \<Rightarrow> failure + (index token list \<times> jstring list)" where
  "scan input =
     (case checkIntegrity input of
        Inl e \<Rightarrow> Inl e
      | Inr u \<Rightarrow>
          (case preliminaryScan input of
             Inl e \<Rightarrow> Inl e
           | Inr preliminary \<Rightarrow> Inr (numberVariables preliminary)))"

section \<open>The parser\<close>

text \<open>
  The two arrays \<open>operators\<close> and \<open>operands\<close> are used as stacks only (\<open>push\<close>, \<open>pop\<close>,
  \<open>topOf\<close>, \<open>length\<close>). They are lists with the top of the stack at the head.
\<close>

definition parseError :: "jstring \<Rightarrow> nat \<Rightarrow> nat \<Rightarrow> failure" where
  "parseError why s e = Thrown why s e"

definition topOf :: "'a list \<Rightarrow> failure + 'a" where
  "topOf array =
     (case array of
        [] \<Rightarrow> Inl (AssertionFailed
          (jstr ''N'' @ [227] @ jstr ''o '' @ [233] @ jstr '' poss'' @ [237] @
           jstr ''vel obter o topo de uma matriz vazia.''))
      | topToken # rest \<Rightarrow> Inr topToken)"

definition isOperand :: "index token \<Rightarrow> bool" where
  "isOperand token =
     (type token = jstr ''T'' \<or> type token = jstr ''F'' \<or> type token = jstr ''variable'')"

text \<open>A token without an \<open>index\<close> field would give a node whose index is \<open>undefined\<close>.\<close>

definition wrapOperand :: "index token \<Rightarrow> failure + ast" where
  "wrapOperand token =
     (if type token = jstr ''T'' then Inr trueNode
      else if type token = jstr ''F'' then Inr falseNode
      else if type token = jstr ''variable''
        then Inr (variableNode (case index token of None \<Rightarrow> OtherValue | Some i \<Rightarrow> i))
      else Inl (UnreachableCode
        (jstr ''Token '' @ type token @ jstr '' n'' @ [227] @ jstr ''o '' @ [233] @ jstr '' um operando'')))"

definition isBinaryOperator :: "index token \<Rightarrow> bool" where
  "isBinaryOperator token =
     (type token = jstr ''<->'' \<or> type token = jstr ''->'' \<or>
      type token = jstr ''/'' @ backslash \<or> type token = backslash @ jstr ''/'')"

definition priorityOf :: "index token \<Rightarrow> failure + int" where
  "priorityOf token =
     (if type token = kScannerConstants_EOF then Inr (- 1)
      else if type token = jstr ''<->'' then Inr 0
      else if type token = jstr ''->'' then Inr 1
      else if type token = backslash @ jstr ''/'' then Inr 2
      else if type token = jstr ''/'' @ backslash then Inr 3
      else Inl (UnreachableCode (jstr ''Nunca deve precisar da prioridade de '' @ type token)))"

definition createOperatorNode :: "ast \<Rightarrow> index token \<Rightarrow> ast \<Rightarrow> failure + ast" where
  "createOperatorNode lhs token rhs =
     (if type token = jstr ''<->'' then Inr (iffNode lhs rhs)
      else if type token = jstr ''->'' then Inr (impliesNode lhs rhs)
      else if type token = backslash @ jstr ''/'' then Inr (orNode lhs rhs)
      else if type token = jstr ''/'' @ backslash then Inr (andNode lhs rhs)
      else Inl (UnreachableCode
        (jstr ''Nunca deve ser necess'' @ [225] @ jstr ''rio criar um n'' @ [243] @
         jstr '' de operador a partir de '' @ type token)))"

text \<open>\<open>addOperand\<close> changes both stacks; the model returns them.\<close>

fun addOperand :: "ast \<Rightarrow> ast list \<Rightarrow> index token list \<Rightarrow> ast list \<times> index token list" where
  "addOperand node operands [] = (node # operands, [])"
| "addOperand node operands (topToken # operators) =
     (if type topToken = jstr ''~'' then addOperand (negateNode node) operands operators
      else (node # operands, topToken # operators))"

lemma addOperand_length: "length (snd (addOperand node operands operators)) \<le> length operators"
  by (induction operators arbitrary: node) (simp_all add: le_SucI)

text \<open>
  The loop of \<open>parse\<close> that evaluates the operators of higher priority on the stack when
  a binary connective or the end marker arrives.
\<close>

function evaluateHigher ::
  "index token \<Rightarrow> index token list \<Rightarrow> ast list \<Rightarrow> failure + (index token list \<times> ast list)" where
  "evaluateHigher currToken operators operands =
     (if operators = [] then Inr (operators, operands)
      else case topOf operators of
        Inl e \<Rightarrow> Inl e
      | Inr topToken \<Rightarrow>
          if type topToken = jstr ''('' then Inr (operators, operands)
          else case priorityOf topToken of
            Inl e \<Rightarrow> Inl e
          | Inr p \<Rightarrow>
              (case priorityOf currToken of
                 Inl e \<Rightarrow> Inl e
               | Inr q \<Rightarrow>
                   if p \<le> q then Inr (operators, operands)
                   else (case operands of
                       rhs # lhs # rest \<Rightarrow>
                         (case createOperatorNode lhs topToken rhs of
                            Inl e \<Rightarrow> Inl e
                          | Inr node \<Rightarrow>
                              evaluateHigher currToken
                                (snd (addOperand node rest (tl operators)))
                                (fst (addOperand node rest (tl operators))))
                     | _ \<Rightarrow> Inl PopOfEmptyStack)))"
  by pat_completeness auto
termination
proof (relation "measure (\<lambda>(currToken, operators, operands). length operators)", goal_cases)
  case 1
  show ?case by simp
next
  case (2 currToken operators operands topToken p q rhs rest lhs rest' node)
  from 2(1) addOperand_length [of node rest' "tl operators"] show ?case
    by (cases operators) simp_all
qed

declare evaluateHigher.simps [simp del]

text \<open>The loop of \<open>parse\<close> that pops operators when a close parenthesis arrives.\<close>

function closeParenthesis ::
  "index token \<Rightarrow> index token list \<Rightarrow> ast list \<Rightarrow> failure + (index token list \<times> ast list)" where
  "closeParenthesis currToken operators operands =
     (case operators of
        [] \<Rightarrow> Inl (parseError
          (jstr ''Este par'' @ [234] @ jstr ''ntesis fechado n'' @ [227] @
           jstr ''o corresponde a nenhum par'' @ [234] @ jstr ''ntesis aberto.'')
          (start currToken) (end' currToken))
      | currOp # operators' \<Rightarrow>
          if type currOp = jstr ''('' then Inr (operators', operands)
          else if type currOp = jstr ''~''
            then Inl (parseError (jstr ''Nada '' @ [233] @ jstr '' negado por este operador.'')
              (start currOp) (end' currOp))
          else (case operands of
              rhs # lhs # rest \<Rightarrow>
                (case createOperatorNode lhs currOp rhs of
                   Inl e \<Rightarrow> Inl e
                 | Inr node \<Rightarrow>
                     closeParenthesis currToken
                       (snd (addOperand node rest operators'))
                       (fst (addOperand node rest operators')))
            | _ \<Rightarrow> Inl PopOfEmptyStack))"
  by pat_completeness auto
termination
proof (relation "measure (\<lambda>(currToken, operators, operands). length operators)", goal_cases)
  case 1
  show ?case by simp
next
  case (2 currToken operators operands currOp operators' rhs rest lhs rest' node)
  from addOperand_length [of node rest' operators'] 2(1) show ?case by simp
qed

declare closeParenthesis.simps [simp del]

text \<open>
  How one round of the \<open>for\<close> loop over the tokens ends: it goes on to the next token, or
  it leaves the loop with \<open>break\<close>.
\<close>

datatype 'a control = Continue 'a | Break 'a

text \<open>
  The body of the loop over the tokens. The state is the operator stack, the operand
  stack and the flag \<open>needOperand\<close>.
\<close>

definition parseToken ::
  "index token \<Rightarrow> index token list \<times> ast list \<times> bool \<Rightarrow>
   failure + (index token list \<times> ast list \<times> bool) control" where
  "parseToken currToken state =
     (case state of (operators, operands, needOperand) \<Rightarrow>
      if needOperand then
        (if isOperand currToken then
           (case wrapOperand currToken of
              Inl e \<Rightarrow> Inl e
            | Inr node \<Rightarrow>
                Inr (Continue (snd (addOperand node operands operators),
                               fst (addOperand node operands operators), False)))
         else if type currToken = jstr ''('' \<or> type currToken = jstr ''~''
           then Inr (Continue (currToken # operators, operands, needOperand))
         else if type currToken = kScannerConstants_EOF then
           (if operators = [] then Inl (parseError [] 0 0)
            else case topOf operators of
              Inl e \<Rightarrow> Inl e
            | Inr topToken \<Rightarrow>
                if type topToken = jstr ''(''
                then Inl (parseError
                  (jstr ''Este par'' @ [234] @ jstr ''ntesis aberto n'' @ [227] @ jstr ''o tem par'' @
                   [234] @ jstr ''ntesis fechado correspondente.'')
                  (start topToken) (end' topToken))
                else Inl (parseError (jstr ''Falta um operando a este operador.'')
                  (start topToken) (end' topToken)))
         else Inl (parseError
           (jstr ''Esper'' @ [225] @ jstr ''vamos aqui uma vari'' @ [225] @
            jstr ''vel, uma constante ou um par'' @ [234] @ jstr ''ntesis aberto.'')
           (start currToken) (end' currToken)))
      else
        (if isBinaryOperator currToken \<or> type currToken = kScannerConstants_EOF then
           (case evaluateHigher currToken operators operands of
              Inl e \<Rightarrow> Inl e
            | Inr (operators', operands') \<Rightarrow>
                if type currToken = kScannerConstants_EOF
                then Inr (Break (currToken # operators', operands', True))
                else Inr (Continue (currToken # operators', operands', True)))
         else if type currToken = jstr '')'' then
           (case closeParenthesis currToken operators operands of
              Inl e \<Rightarrow> Inl e
            | Inr (operators', operands') \<Rightarrow>
                (case operands' of
                   [] \<Rightarrow> Inl PopOfEmptyStack
                 | expr # rest \<Rightarrow>
                     Inr (Continue (snd (addOperand expr rest operators'),
                                    fst (addOperand expr rest operators'), needOperand))))
         else Inl (parseError
           (jstr ''Esper'' @ [225] @ jstr ''vamos aqui um par'' @ [234] @
            jstr ''ntesis fechado ou um conectivo bin'' @ [225] @ jstr ''rio.'')
           (start currToken) (end' currToken))))"

text \<open>The loop \<open>for (var i in tokens)\<close>.\<close>

fun parseLoop ::
  "index token list \<Rightarrow> index token list \<times> ast list \<times> bool \<Rightarrow>
   failure + (index token list \<times> ast list \<times> bool)" where
  "parseLoop [] state = Inr state"
| "parseLoop (currToken # tokens) state =
     (case parseToken currToken state of
        Inl e \<Rightarrow> Inl e
      | Inr (Break state') \<Rightarrow> Inr state'
      | Inr (Continue state') \<Rightarrow> parseLoop tokens state')"

text \<open>What \<open>parse\<close> does after the loop.\<close>

definition finishParse :: "index token list \<Rightarrow> ast list \<Rightarrow> jstring list \<Rightarrow> failure + parseResult" where
  "finishParse operators operands names =
     (case operators of
        [] \<Rightarrow> Inl (AssertionFailed
          (jstr ''N'' @ [227] @ jstr ''o h'' @ [225] @
           jstr '' operadores na pilha de operadores (erro l'' @ [243] @ jstr ''gico no analisador?)''))
      | topToken # operators' \<Rightarrow>
          if type topToken \<noteq> kScannerConstants_EOF
          then Inl (AssertionFailed
            (jstr ''O topo da pilha n'' @ [227] @ jstr ''o '' @ [233] @ jstr '' EOF (erro l'' @ [243] @
             jstr ''gico no analisador?)''))
          else (case operators' of
              mismatchedOp # rest \<Rightarrow>
                if type mismatchedOp \<noteq> jstr ''(''
                then Inl (AssertionFailed
                  (jstr ''De alguma forma, falhou um operador de factoriza'' @ [231, 227] @
                   jstr ''o em EOF (erro l'' @ [243] @ jstr ''gico no analisador?)''))
                else Inl (parseError
                  (jstr ''N'' @ [227] @ jstr ''o h'' @ [225] @ jstr '' par'' @ [234] @
                   jstr ''ntesis fechado correspondente para este par'' @ [234] @ jstr ''ntesis aberto.'')
                  (start mismatchedOp) (end' mismatchedOp))
            | [] \<Rightarrow>
                (case operands of
                   [] \<Rightarrow> Inl PopOfEmptyStack
                 | root # rest \<Rightarrow> Inr \<lparr>ast = root, variables = names\<rparr>)))"

definition parse :: "jstring \<Rightarrow> failure + parseResult" where
  "parse input =
     (case scan input of
        Inl e \<Rightarrow> Inl e
      | Inr scanResult \<Rightarrow>
          (case parseLoop (fst scanResult) ([], [], True) of
             Inl e \<Rightarrow> Inl e
           | Inr (operators, operands, needOperand) \<Rightarrow>
               finishParse operators operands (snd scanResult)))"

section \<open>Evaluating the program on given inputs\<close>

lemmas scan_eval = jstr_def backslash_def charAt_def substring_def test_def nameStartClass_def nameClass_def
  whitespaceClass_def singleOperatorClass_def okayChars_def kScannerConstants_EOF_def translate_def
  makeIdentityToken_def makeVariableToken_def isReservedWord_def readNameChars.simps tryReadVariableName_def
  isVariableStart_def setKey_def scanVariable_def tryReadOperator_def isOperatorStart_def isWhitespace_def
  scannerFail_def preliminaryScanLoop.simps preliminaryScan_def checkIntegrityLoop.simps checkIntegrity_def
  invertVariables_def getKey_def renumberToken_def numberVariables_def scan_def Let_def

lemmas parse_eval = parseError_def topOf_def isOperand_def wrapOperand_def isBinaryOperator_def priorityOf_def
  createOperatorNode_def evaluateHigher.simps closeParenthesis.simps parseToken_def finishParse_def parse_def

lemmas table_eval = generateTruthTable_def truthTableLoop.simps nextAssignment_def Let_def

lemma parse_not_p_or_q:
  "parse (jstr ''~p '' @ backslash @ jstr ''/ q'') =
     Inr \<lparr>ast = orNode (negateNode (variableNode (Number 0))) (variableNode (Number 1)),
          variables = [jstr ''p'', jstr ''q'']\<rparr>"
  by (simp add: scan_eval parse_eval)

lemma parse_p_implies_q:
  "parse (jstr ''p -> q'') =
     Inr \<lparr>ast = impliesNode (variableNode (Number 0)) (variableNode (Number 1)),
          variables = [jstr ''p'', jstr ''q'']\<rparr>"
  by (simp add: scan_eval parse_eval)

lemma table_not_p_or_q:
  "generateTruthTable \<lparr>ast = orNode (negateNode (variableNode (Number 0))) (variableNode (Number 1)),
          variables = [jstr ''p'', jstr ''q'']\<rparr> =
     [([False, False], Boolean True), ([False, True], Boolean True),
      ([True, False], Boolean False), ([True, True], Boolean True)]"
  by (simp add: table_eval)

lemma table_p_implies_q:
  "generateTruthTable \<lparr>ast = impliesNode (variableNode (Number 0)) (variableNode (Number 1)),
          variables = [jstr ''p'', jstr ''q'']\<rparr> =
     [([False, False], Boolean True), ([False, True], Boolean True),
      ([True, False], Boolean False), ([True, True], Boolean True)]"
  by (simp add: table_eval)

text \<open>
  The tree covers its variables with an assignment: every variable node holds a number
  below the length of the assignment.
\<close>

fun covered :: "ast \<Rightarrow> bool list \<Rightarrow> bool" where
  "covered trueNode assignment = True"
| "covered falseNode assignment = True"
| "covered (negateNode underlying) assignment = covered underlying assignment"
| "covered (andNode lhs rhs) assignment = (covered lhs assignment \<and> covered rhs assignment)"
| "covered (orNode lhs rhs) assignment = (covered lhs assignment \<and> covered rhs assignment)"
| "covered (impliesNode lhs rhs) assignment = (covered lhs assignment \<and> covered rhs assignment)"
| "covered (iffNode lhs rhs) assignment = (covered lhs assignment \<and> covered rhs assignment)"
| "covered (variableNode i) assignment =
     (case i of Number n \<Rightarrow> n < length assignment | ObjectPrototype \<Rightarrow> False | OtherValue \<Rightarrow> False)"

text \<open>The truth value of a tree under the usual semantics of the connectives.\<close>

fun truthValue :: "ast \<Rightarrow> bool list \<Rightarrow> bool" where
  "truthValue trueNode assignment = True"
| "truthValue falseNode assignment = False"
| "truthValue (negateNode underlying) assignment = (\<not> truthValue underlying assignment)"
| "truthValue (andNode lhs rhs) assignment = (truthValue lhs assignment \<and> truthValue rhs assignment)"
| "truthValue (orNode lhs rhs) assignment = (truthValue lhs assignment \<or> truthValue rhs assignment)"
| "truthValue (impliesNode lhs rhs) assignment = ((\<not> truthValue lhs assignment) \<or> truthValue rhs assignment)"
| "truthValue (iffNode lhs rhs) assignment = (truthValue lhs assignment = truthValue rhs assignment)"
| "truthValue (variableNode i) assignment =
     (case i of Number n \<Rightarrow> assignment ! n | ObjectPrototype \<Rightarrow> False | OtherValue \<Rightarrow> False)"

lemma evaluate_covered:
  "covered node assignment \<Longrightarrow> evaluate node assignment = Boolean (truthValue node assignment)"
  by (induction node) (auto split: index.splits)

text \<open>
  Claim C4. Under an assignment that covers the variables of a tree, \<open>evaluate\<close> returns
  the boolean that the usual semantics gives: a constant gives its literal, a variable
  node \<open>assignment[index]\<close>, a negation the complement of its child, \<open>and\<close> and \<open>or\<close> the
  conjunction and the disjunction of both children, \<open>implies\<close> \<open>(not lhs) or rhs\<close>, \<open>iff\<close>
  \<open>lhs = rhs\<close>. The inputs \<open>~p \/ q\<close> and \<open>p -> q\<close> both parse, over the variables \<open>p\<close>,
  \<open>q\<close>, and their truth tables have the same four rows.
\<close>

theorem evaluate_truth_functional:
  "(covered node assignment \<longrightarrow>
      evaluate node assignment = Boolean (truthValue node assignment)) \<and>
   (\<exists>r1 r2. parse (jstr ''~p '' @ backslash @ jstr ''/ q'') = Inr r1 \<and>
      parse (jstr ''p -> q'') = Inr r2 \<and>
      variables r1 = [jstr ''p'', jstr ''q''] \<and> variables r2 = [jstr ''p'', jstr ''q''] \<and>
      length (generateTruthTable r1) = 4 \<and>
      generateTruthTable r1 = generateTruthTable r2)"
proof (intro conjI impI)
  assume "covered node assignment"
  then show "evaluate node assignment = Boolean (truthValue node assignment)"
    by (rule evaluate_covered)
next
  show "\<exists>r1 r2. parse (jstr ''~p '' @ backslash @ jstr ''/ q'') = Inr r1 \<and>
      parse (jstr ''p -> q'') = Inr r2 \<and>
      variables r1 = [jstr ''p'', jstr ''q''] \<and> variables r2 = [jstr ''p'', jstr ''q''] \<and>
      length (generateTruthTable r1) = 4 \<and>
      generateTruthTable r1 = generateTruthTable r2"
  proof (intro exI conjI)
    show "parse (jstr ''~p '' @ backslash @ jstr ''/ q'') =
        Inr \<lparr>ast = orNode (negateNode (variableNode (Number 0))) (variableNode (Number 1)),
             variables = [jstr ''p'', jstr ''q'']\<rparr>"
      by (rule parse_not_p_or_q)
    show "parse (jstr ''p -> q'') =
        Inr \<lparr>ast = impliesNode (variableNode (Number 0)) (variableNode (Number 1)),
             variables = [jstr ''p'', jstr ''q'']\<rparr>"
      by (rule parse_p_implies_q)
    show "length (generateTruthTable
        \<lparr>ast = orNode (negateNode (variableNode (Number 0))) (variableNode (Number 1)),
          variables = [jstr ''p'', jstr ''q'']\<rparr>) = 4"
      by (simp only: table_not_p_or_q) simp
    show "generateTruthTable
        \<lparr>ast = orNode (negateNode (variableNode (Number 0))) (variableNode (Number 1)),
          variables = [jstr ''p'', jstr ''q'']\<rparr> =
      generateTruthTable
        \<lparr>ast = impliesNode (variableNode (Number 0)) (variableNode (Number 1)),
          variables = [jstr ''p'', jstr ''q'']\<rparr>"
      by (simp only: table_not_p_or_q table_p_implies_q)
  qed simp_all
qed

theorem evaluate_truth_functional_witness:
  "covered (impliesNode (variableNode (Number 0)) (negateNode (variableNode (Number 1)))) [True, True] \<and>
   evaluate (impliesNode (variableNode (Number 0)) (negateNode (variableNode (Number 1)))) [True, True] =
     Boolean False"
  using evaluate_truth_functional
    [of "impliesNode (variableNode (Number 0)) (negateNode (variableNode (Number 1)))" "[True, True]"]
  by simp

text \<open>
  Claim C2, at the input \<open>__proto__\<close>, which is a variable name for the scanner:
  \<open>parse\<close> accepts it, the list of variables is empty, and the variable node holds the
  prototype object instead of a number. In \<open>__proto__ and p\<close> the list of variables is
  \<open>p\<close> alone.
\<close>

theorem parse_proto_variable:
  "parse (jstr ''__proto__'') = Inr \<lparr>ast = variableNode ObjectPrototype, variables = []\<rparr> \<and>
   parse (jstr ''__proto__ and p'') =
     Inr \<lparr>ast = andNode (variableNode ObjectPrototype) (variableNode (Number 0)),
          variables = [jstr ''p'']\<rparr>"
  by (simp add: scan_eval parse_eval)

section \<open>What the scanner reads at a position\<close>

lemma substring_from: "substring s i (i + k) = take k (drop i s)"
  by (simp add: substring_def)

text \<open>The lexemes that \<open>tryReadOperator\<close> knows, in the order in which it tries them.\<close>

definition multiLexemes :: "jstring list" where
  "multiLexemes =
     [backslash @ jstr ''leftrightarrow'', backslash @ jstr ''Leftrightarrow'',
      backslash @ jstr ''rightarrow'', backslash @ jstr ''Rightarrow'',
      jstr ''implies'',
      backslash @ jstr ''wedge'',
      jstr ''false'', backslash @ jstr ''lnot'', backslash @ jstr ''lneg'', backslash @ jstr ''land'',
      jstr ''true'', backslash @ jstr ''top'', backslash @ jstr ''bot'', backslash @ jstr ''lor'',
      backslash @ jstr ''vee'', backslash @ jstr ''neg'',
      jstr ''<->'', jstr ''and'', jstr ''<=>'', jstr ''not'', jstr ''iff'', backslash @ jstr ''to'',
      jstr ''/'' @ backslash, backslash @ jstr ''/'', jstr ''->'', jstr ''&&'', jstr ''||'',
      jstr ''or'', jstr ''=>'']"

lemma tryReadOperator_SomeD:
  assumes "tryReadOperator input i = Some t"
  shows "(\<exists>k. take k (drop i input) = t \<and> 0 < k \<and> i + k \<le> length input \<and> t \<in> set multiLexemes) \<or>
         (i < length input \<and> t = [input ! i] \<and> singleOperatorClass (input ! i))"
  using assms unfolding tryReadOperator_def Let_def substring_from
  apply (elim if_SomeE)
  subgoal by (rule disjI1, rule exI, rule conjI, assumption) (auto simp: multiLexemes_def)
  subgoal by (rule disjI1, rule exI, rule conjI, assumption) (auto simp: multiLexemes_def)
  subgoal by (rule disjI1, rule exI, rule conjI, assumption) (auto simp: multiLexemes_def)
  subgoal by (rule disjI1, rule exI, rule conjI, assumption) (auto simp: multiLexemes_def)
  subgoal by (rule disjI1, rule exI, rule conjI, assumption) (auto simp: multiLexemes_def)
  subgoal by (rule disjI1, rule exI, rule conjI, assumption) (auto simp: multiLexemes_def)
  subgoal by (rule disjI1, rule exI, rule conjI, assumption) (auto simp: multiLexemes_def)
  subgoal by (rule disjI1, rule exI, rule conjI, assumption) (auto simp: multiLexemes_def)
  subgoal by (rule disjI2) (auto simp: test_def charAt_def split: if_splits)
  subgoal by simp
  done

lemma multiLexemes_plain:
  "\<forall>t \<in> set multiLexemes. t \<noteq> [] \<and> 36 \<notin> set t \<and> \<not> whitespaceClass (hd t) \<and>
     translate t \<noteq> kScannerConstants_EOF"
  by (simp add: multiLexemes_def jstr_def backslash_def whitespaceClass_def translate_def
      kScannerConstants_EOF_def)

lemma singleOperatorClass_plain:
  "singleOperatorClass c \<Longrightarrow> c \<noteq> 36 \<and> \<not> whitespaceClass c \<and> translate [c] \<noteq> kScannerConstants_EOF"
  unfolding singleOperatorClass_def
  by (elim disjE) (simp_all add: whitespaceClass_def translate_def kScannerConstants_EOF_def jstr_def
      backslash_def)

lemma tryReadOperator_plain:
  assumes "tryReadOperator input i = Some t"
  shows "t \<noteq> []" and "36 \<notin> set t" and "take (length t) (drop i input) = t"
    and "i + length t \<le> length input" and "\<not> whitespaceClass (input ! i)"
    and "translate t \<noteq> kScannerConstants_EOF"
proof -
  from tryReadOperator_SomeD [OF assms]
  have "t \<noteq> [] \<and> 36 \<notin> set t \<and> take (length t) (drop i input) = t \<and>
      i + length t \<le> length input \<and> \<not> whitespaceClass (input ! i) \<and>
      translate t \<noteq> kScannerConstants_EOF"
  proof (elim disjE exE conjE)
    fix k
    assume t: "take k (drop i input) = t" and k: "0 < k" "i + k \<le> length input"
      and m: "t \<in> set multiLexemes"
    from t k have len: "length t = k" by auto
    from t k have "hd t = input ! i"
      by (metis Suc_le_eq add_lessD1 hd_drop_conv_nth hd_take le_add1 le_neq_implies_less
          less_add_same_cancel1 not_less_eq_eq plus_1_eq_Suc)
    with multiLexemes_plain m t k len show ?thesis by auto
  next
    assume "i < length input" "t = [input ! i]" "singleOperatorClass (input ! i)"
    with singleOperatorClass_plain [of "input ! i"] show ?thesis
      by (simp add: take_Suc_conv_app_nth)
  qed
  then show "t \<noteq> []" and "36 \<notin> set t" and "take (length t) (drop i input) = t"
    and "i + length t \<le> length input" and "\<not> whitespaceClass (input ! i)"
    and "translate t \<noteq> kScannerConstants_EOF"
    by simp_all
qed

section \<open>The scanner loop, one step at a time\<close>

lemma scan_step_eof:
  "charAt input i = kScannerConstants_EOF \<Longrightarrow>
   preliminaryScanLoop input i variableSet tokens =
     Inr (tokens @ [makeIdentityToken kScannerConstants_EOF i], variableSet)"
  by (subst preliminaryScanLoop.simps) simp

lemma scan_step_variable:
  "charAt input i \<noteq> kScannerConstants_EOF \<Longrightarrow> tryReadVariableName input i = Some v \<Longrightarrow>
   preliminaryScanLoop input i variableSet tokens =
     preliminaryScanLoop input (i + length v) (setKey variableSet v)
       (tokens @ [makeVariableToken v i (i + length v)])"
  by (subst preliminaryScanLoop.simps) (simp add: isVariableStart_def scanVariable_def)

lemma scan_step_operator:
  "charAt input i \<noteq> kScannerConstants_EOF \<Longrightarrow> tryReadVariableName input i = None \<Longrightarrow>
   tryReadOperator input i = Some t \<Longrightarrow>
   preliminaryScanLoop input i variableSet tokens =
     preliminaryScanLoop input (i + length t) variableSet (tokens @ [makeIdentityToken t i])"
  by (subst preliminaryScanLoop.simps) (simp add: isVariableStart_def isOperatorStart_def)

lemma scan_step_whitespace:
  "charAt input i \<noteq> kScannerConstants_EOF \<Longrightarrow> tryReadVariableName input i = None \<Longrightarrow>
   tryReadOperator input i = None \<Longrightarrow> isWhitespace (charAt input i) \<Longrightarrow>
   preliminaryScanLoop input i variableSet tokens =
     preliminaryScanLoop input (i + 1) variableSet tokens"
  by (subst preliminaryScanLoop.simps) (simp add: isVariableStart_def isOperatorStart_def)

lemma scan_step_fail:
  "charAt input i \<noteq> kScannerConstants_EOF \<Longrightarrow> tryReadVariableName input i = None \<Longrightarrow>
   tryReadOperator input i = None \<Longrightarrow> \<not> isWhitespace (charAt input i) \<Longrightarrow>
   preliminaryScanLoop input i variableSet tokens =
     Inl (Thrown (jstr ''O car'' @ [225] @ jstr ''cter '' @ charAt input i @
         jstr '' n'' @ [227] @ jstr ''o deveria estar aqui.'') i (i + 1))"
  by (subst preliminaryScanLoop.simps)
    (simp add: isVariableStart_def isOperatorStart_def scannerFail_def)

text \<open>A token lies inside the text that was given, and is not the end marker.\<close>

definition inside :: "nat \<Rightarrow> 'i token \<Rightarrow> bool" where
  "inside n t = (start t \<le> end' t \<and> end' t \<le> n \<and> type t \<noteq> kScannerConstants_EOF)"

lemma charAt_EOF_iff:
  "charAt input i = kScannerConstants_EOF \<longleftrightarrow> i < length input \<and> input ! i = 36"
  by (simp add: charAt_def kScannerConstants_EOF_def jstr_def)

lemma nameClass_not_EOF: "nameClass c \<Longrightarrow> c \<noteq> 36"
  by (auto simp: nameClass_def)

lemma takeWhile_snoc_le: "\<not> P y \<Longrightarrow> length (takeWhile P (xs @ [y])) \<le> length xs"
  by (induction xs) simp_all

lemma takeWhile_before_marker:
  assumes "i \<le> length text"
  shows "i + length (takeWhile nameClass (drop i (text @ [36]))) \<le> length text"
proof -
  have "\<not> nameClass 36" by (simp add: nameClass_def)
  from takeWhile_snoc_le [of nameClass 36 "drop i text", OF this] assms show ?thesis by simp
qed

lemma lexeme_before_marker:
  assumes "i \<le> length text" and "take (length t) (drop i (text @ [36])) = t" and "36 \<notin> set t"
  shows "i + length t \<le> length text"
proof (rule ccontr)
  assume "\<not> i + length t \<le> length text"
  then have "length text - i < length t" using assms(1) by simp
  then have "t ! (length text - i) \<in> set t" by simp
  moreover have "t ! (length text - i) = take (length t) (drop i (text @ [36])) ! (length text - i)"
    using assms(2) by simp
  then have "t ! (length text - i) = 36"
    using \<open>length text - i < length t\<close> assms(1) by (simp add: nth_append)
  ultimately show False using assms(3) by simp
qed

text \<open>The message of the scanner for a character that fits nowhere.\<close>

definition strayCharacter :: "jstring \<Rightarrow> jstring" where
  "strayCharacter c =
     jstr ''O car'' @ [225] @ jstr ''cter '' @ c @ jstr '' n'' @ [227] @ jstr ''o deveria estar aqui.''"

text \<open>
  What the scanner loop may return when it starts with the tokens \<open>tokens\<close>: an error at
  one character of the text, or the tokens followed by tokens inside the text and the end
  marker.
\<close>

definition scanned :: "jstring \<Rightarrow> jstring token list \<Rightarrow> failure + (jstring token list \<times> jstring list) \<Rightarrow> bool" where
  "scanned text tokens r =
     (case r of
        Inl e \<Rightarrow> \<exists>c s. s < length text \<and> e = Thrown (strayCharacter [c]) s (s + 1)
      | Inr (tokens', names) \<Rightarrow> \<exists>body eof. tokens' = tokens @ body @ [eof] \<and>
          type eof = kScannerConstants_EOF \<and> (\<forall>t \<in> set body. inside (length text) t))"

lemma scanned_extend:
  assumes "inside (length text) tok" and "scanned text (tokens @ [tok]) r"
  shows "scanned text tokens r"
proof (cases r)
  case (Inl e)
  with assms(2) show ?thesis by (simp add: scanned_def)
next
  case (Inr p)
  obtain tokens' names where p: "p = (tokens', names)" by (cases p)
  with Inr assms(2) obtain body eof where "tokens' = (tokens @ [tok]) @ body @ [eof]"
    "type eof = kScannerConstants_EOF" "\<forall>t \<in> set body. inside (length text) t"
    by (auto simp: scanned_def)
  with assms(1) have "tokens' = tokens @ (tok # body) @ [eof] \<and>
    type eof = kScannerConstants_EOF \<and> (\<forall>t \<in> set (tok # body). inside (length text) t)"
    by simp
  then show ?thesis unfolding scanned_def Inr p by (simp only: sum.case prod.case) blast
qed

lemma preliminaryScanLoop_scanned:
  assumes "i \<le> length text"
  shows "scanned text tokens (preliminaryScanLoop (text @ kScannerConstants_EOF) i variableSet tokens)"
  using assms
proof (induction "length text - i" arbitrary: i variableSet tokens rule: less_induct)
  case less
  let ?input = "text @ kScannerConstants_EOF"
  have input: "?input = text @ [36]" by (simp add: kScannerConstants_EOF_def jstr_def)
  have i: "i < length ?input" using less.prems by (simp add: input)
  show ?case
  proof (cases "charAt ?input i = kScannerConstants_EOF")
    case True
    have "type (makeIdentityToken kScannerConstants_EOF i :: jstring token) = kScannerConstants_EOF"
      by (simp add: makeIdentityToken_def translate_def kScannerConstants_EOF_def jstr_def backslash_def)
    then show ?thesis
      by (simp add: scan_step_eof [OF True] scanned_def)
  next
    case notEOF: False
    then have lt: "i < length text"
      using less.prems by (auto simp: charAt_EOF_iff input nth_append le_less)
    show ?thesis
    proof (cases "tryReadVariableName ?input i")
      case (Some v)
      note v = tryReadVariableName_Some [OF Some]
      have "i + length v \<le> length text"
        using takeWhile_before_marker [OF less.prems] v(3) less.prems unfolding input by simp
      moreover have "0 < length v" using v(2) by simp
      ultimately have IH: "length text - (i + length v) < length text - i" "i + length v \<le> length text"
        using lt by arith+
      have tok: "inside (length text) (makeVariableToken v i (i + length v))"
        using IH(2) by (simp add: inside_def makeVariableToken_def kScannerConstants_EOF_def jstr_def)
      show ?thesis
        unfolding scan_step_variable [OF notEOF Some]
        by (rule scanned_extend [OF tok]) (rule less.hyps [OF IH])
    next
      case noVar: None
      show ?thesis
      proof (cases "tryReadOperator ?input i")
        case (Some t)
        note t = tryReadOperator_plain [OF Some]
        have "i + length t \<le> length text"
          using lexeme_before_marker [OF less.prems, of t] t(2,3) less.prems unfolding input by simp
        moreover have "0 < length t" using t(1) by simp
        ultimately have IH: "length text - (i + length t) < length text - i" "i + length t \<le> length text"
          using lt by arith+
        have tok: "inside (length text) (makeIdentityToken t i :: jstring token)"
          using IH(2) t(6) by (simp add: inside_def makeIdentityToken_def)
        show ?thesis
          unfolding scan_step_operator [OF notEOF noVar Some]
          by (rule scanned_extend [OF tok]) (rule less.hyps [OF IH])
      next
        case noOp: None
        show ?thesis
        proof (cases "isWhitespace (charAt ?input i)")
          case True
          have IH: "length text - (i + 1) < length text - i" "i + 1 \<le> length text"
            using lt by simp_all
          show ?thesis
            unfolding scan_step_whitespace [OF notEOF noVar noOp True]
            by (rule less.hyps [OF IH])
        next
          case False
          have "charAt ?input i = [?input ! i]" using i by (simp add: charAt_def)
          then show ?thesis
            using lt by (auto simp: scan_step_fail [OF notEOF noVar noOp False] scanned_def strayCharacter_def)
        qed
      qed
    qed
  qed
qed

lemma checkIntegrityLoop_result:
  "case checkIntegrityLoop input i of
     Inl e \<Rightarrow> \<exists>s. s < length input \<and> e = Thrown (jstr ''Illegal character'') s (s + 1)
   | Inr u \<Rightarrow> True"
proof (induction input i rule: checkIntegrityLoop.induct)
  case (1 input i)
  show ?case
  proof (cases "i < length input \<and> test okayChars (charAt input i)")
    case True
    with 1 show ?thesis by (subst checkIntegrityLoop.simps) simp
  next
    case False
    then show ?thesis
      by (subst checkIntegrityLoop.simps) (auto simp: scannerFail_def)
  qed
qed

lemma checkIntegrityLoop_okay:
  "\<forall>j. i \<le> j \<and> j < length input \<longrightarrow> okayChars (input ! j) \<Longrightarrow> checkIntegrityLoop input i = Inr ()"
proof (induction input i rule: checkIntegrityLoop.induct)
  case (1 input i)
  show ?case
  proof (cases "i < length input")
    case True
    with 1(2) have "test okayChars (charAt input i)" by (simp add: test_charAt)
    moreover from 1(2) have "\<forall>j. i + 1 \<le> j \<and> j < length input \<longrightarrow> okayChars (input ! j)" by simp
    ultimately show ?thesis using 1(1) True by (subst checkIntegrityLoop.simps) simp
  next
    case False
    then show ?thesis by (subst checkIntegrityLoop.simps) simp
  qed
qed

lemma type_renumberToken [simp]: "type (renumberToken variableSet t) = type t"
  and start_renumberToken [simp]: "start (renumberToken variableSet t) = start t"
  and end_renumberToken [simp]: "end' (renumberToken variableSet t) = end' t"
  by (simp_all add: renumberToken_def)

lemma inside_renumberToken [simp]: "inside n (renumberToken variableSet t) = inside n t"
  by (simp add: inside_def)

text \<open>
  What \<open>scan\<close> returns: an error at one character of the input, or tokens inside the input
  followed by the end marker.
\<close>

lemma scan_Inl:
  assumes "scan input = Inl e"
  shows "\<exists>d s. s < length input \<and> e = Thrown d s (s + 1) \<and>
    (d = jstr ''Illegal character'' \<or> (\<exists>c. d = strayCharacter [c]))"
proof (cases "checkIntegrity input")
  case (Inl e')
  with assms have "e' = e" by (simp add: scan_def)
  with Inl checkIntegrityLoop_result [of input 0] show ?thesis
    by (auto simp: checkIntegrity_def)
next
  case (Inr u)
  with assms have "preliminaryScan input = Inl e"
    by (simp add: scan_def split: sum.splits)
  with preliminaryScanLoop_scanned [of 0 input "[]" "[]"] show ?thesis
    by (auto simp: preliminaryScan_def scanned_def)
qed

lemma scan_Inr:
  assumes "scan input = Inr (tokens, names)"
  shows "\<exists>body eof. tokens = body @ [eof] \<and> type eof = kScannerConstants_EOF \<and>
    (\<forall>t \<in> set body. inside (length input) t)"
proof -
  from assms obtain tokens' names' where p: "preliminaryScan input = Inr (tokens', names')"
    and n: "numberVariables (tokens', names') = (tokens, names)"
    by (auto simp: scan_def split: sum.splits)
  from p preliminaryScanLoop_scanned [of 0 input "[]" "[]"]
  obtain body eof where b: "tokens' = body @ [eof]" "type eof = kScannerConstants_EOF"
    "\<forall>t \<in> set body. inside (length input) t"
    by (auto simp: preliminaryScan_def scanned_def)
  from n have "tokens = map (renumberToken (invertVariables (sort names'))) tokens'"
    by (auto simp: numberVariables_def Let_def)
  with b have "tokens = map (renumberToken (invertVariables (sort names'))) body @
      [renumberToken (invertVariables (sort names')) eof] \<and>
    type (renumberToken (invertVariables (sort names')) eof) = kScannerConstants_EOF \<and>
    (\<forall>t \<in> set (map (renumberToken (invertVariables (sort names'))) body). inside (length input) t)"
    by simp
  then show ?thesis by blast
qed

section \<open>Inputs of white space\<close>

lemma whitespaceClass_plain:
  "whitespaceClass c \<Longrightarrow> okayChars c \<and> \<not> nameStartClass c \<and> c \<noteq> 36"
  by (auto simp: whitespaceClass_def okayChars_def nameStartClass_def)

lemma preliminaryScanLoop_whitespace:
  assumes "\<forall>c \<in> set text. whitespaceClass c" and "i \<le> length text"
  shows "preliminaryScanLoop (text @ kScannerConstants_EOF) i variableSet tokens =
    Inr (tokens @ [makeIdentityToken kScannerConstants_EOF (length text)], variableSet)"
  using assms(2)
proof (induction "length text - i" arbitrary: i rule: less_induct)
  case less
  let ?input = "text @ kScannerConstants_EOF"
  have input: "?input = text @ [36]" by (simp add: kScannerConstants_EOF_def jstr_def)
  show ?case
  proof (cases "i = length text")
    case True
    then have "charAt ?input i = kScannerConstants_EOF"
      by (simp add: charAt_EOF_iff input)
    from scan_step_eof [OF this] True show ?thesis by simp
  next
    case False
    with less.prems have lt: "i < length text" by simp
    then have c: "whitespaceClass (?input ! i)" "?input ! i = text ! i"
      using assms(1) by (simp_all add: input nth_append)
    note plain = whitespaceClass_plain [OF c(1)]
    have notEOF: "charAt ?input i \<noteq> kScannerConstants_EOF"
      using plain by (simp add: charAt_EOF_iff)
    have noVar: "tryReadVariableName ?input i = None"
      using plain by (simp add: tryReadVariableName_def test_charAt)
    have noOp: "tryReadOperator ?input i = None"
      using tryReadOperator_plain(5) [of ?input i] c(1) by (cases "tryReadOperator ?input i") auto
    have ws: "isWhitespace (charAt ?input i)"
      using c(1) lt by (simp add: isWhitespace_def test_charAt input)
    have "length text - (i + 1) < length text - i" "i + 1 \<le> length text" using lt by simp_all
    from less.hyps [OF this] show ?thesis
      unfolding scan_step_whitespace [OF notEOF noVar noOp ws] .
  qed
qed

lemma scan_whitespace:
  assumes "\<forall>c \<in> set input. whitespaceClass c"
  shows "scan input = Inr ([\<lparr>type = kScannerConstants_EOF, index = None, start = length input,
    end' = length input + 1\<rparr>], [])"
proof -
  from assms have "checkIntegrity input = Inr ()"
    unfolding checkIntegrity_def
    by (intro checkIntegrityLoop_okay) (simp add: whitespaceClass_plain)
  moreover have "translate kScannerConstants_EOF = kScannerConstants_EOF"
    by (simp add: translate_def kScannerConstants_EOF_def jstr_def backslash_def)
  moreover have "kScannerConstants_EOF \<noteq> jstr ''variable''" "length kScannerConstants_EOF = 1"
    by (simp_all add: kScannerConstants_EOF_def jstr_def)
  ultimately show ?thesis
    using preliminaryScanLoop_whitespace [OF assms, of 0 "[]" "[]"]
    by (simp add: scan_def preliminaryScan_def numberVariables_def renumberToken_def
        makeIdentityToken_def)
qed

lemma parse_empty_input:
  "parse [] = Inl (Thrown [] 0 0)"
  by (simp add: scan_eval parse_eval)

lemma parse_blank_input:
  "parse (jstr '' '') = Inl (Thrown [] 0 0)"
  by (simp add: scan_eval parse_eval)

text \<open>
  Against claim C8: for the empty input and for an input of one space the error that
  \<open>parse\<close> throws has the empty string as its description.
\<close>

theorem parse_empty_input_description:
  "parse [] = Inl (Thrown [] 0 0) \<and> parse (jstr '' '') = Inl (Thrown [] 0 0)"
  using parse_empty_input parse_blank_input by simp

text \<open>
  Claim C8, amended. For the empty input and for every input that consists of white space
  only, \<open>parse\<close> fails with the error \<open>{description: "", start: 0, end: 0}\<close>: the
  description is the empty string.
\<close>

theorem parse_whitespace_only:
  assumes "\<forall>c \<in> set input. whitespaceClass c"
  shows "parse input = Inl (Thrown [] 0 0)"
proof -
  have "kScannerConstants_EOF \<noteq> jstr ''T''" "kScannerConstants_EOF \<noteq> jstr ''F''"
    "kScannerConstants_EOF \<noteq> jstr ''variable''" "kScannerConstants_EOF \<noteq> jstr ''(''"
    "kScannerConstants_EOF \<noteq> jstr ''~''"
    by (simp_all add: kScannerConstants_EOF_def jstr_def)
  then show ?thesis
    by (simp add: parse_def scan_whitespace [OF assms] parseToken_def isOperand_def parseError_def)
qed

theorem parse_whitespace_only_witness:
  "whitespaceClass 32 \<and> whitespaceClass 9 \<and> parse [32, 9, 32] = Inl (Thrown [] 0 0)"
  using parse_whitespace_only [of "[32, 9, 32]"] by (simp add: whitespaceClass_def)

section \<open>Invariants of the parser\<close>

text \<open>The kinds of token that the parser puts on the operator stack.\<close>

definition isOpen :: "index token \<Rightarrow> bool" where
  "isOpen t = (type t = jstr ''('')"

definition isNegation :: "index token \<Rightarrow> bool" where
  "isNegation t = (type t = jstr ''~'')"

definition isEOF :: "index token \<Rightarrow> bool" where
  "isEOF t = (type t = kScannerConstants_EOF)"

lemma binary_kind:
  assumes "isBinaryOperator t"
  shows "\<not> isOpen t" and "\<not> isNegation t" and "\<not> isEOF t"
    and "\<exists>p. priorityOf t = Inr p \<and> 0 \<le> p"
    and "\<exists>node. createOperatorNode lhs t rhs = Inr node"
  using assms
  by (auto simp: isBinaryOperator_def isOpen_def isNegation_def isEOF_def priorityOf_def
      createOperatorNode_def kScannerConstants_EOF_def jstr_def backslash_def)

lemma eof_kind:
  assumes "isEOF t"
  shows "\<not> isOpen t" and "\<not> isNegation t" and "\<not> isBinaryOperator t" and "\<not> isOperand t"
    and "priorityOf t = Inr (- 1)" and "type t \<noteq> jstr '')''"
  using assms
  by (auto simp: isBinaryOperator_def isOpen_def isNegation_def isEOF_def priorityOf_def
      isOperand_def kScannerConstants_EOF_def jstr_def backslash_def)

lemma operand_kind:
  assumes "isOperand t"
  shows "\<exists>node. wrapOperand t = Inr node"
  using assms by (auto simp: isOperand_def wrapOperand_def)

lemma open_not_negation: "isOpen t \<Longrightarrow> \<not> isNegation t"
  by (auto simp: isOpen_def isNegation_def jstr_def)

text \<open>
  The operator stack holds open parentheses, negations and binary connectives only, and a
  negation below the top lies directly under an open parenthesis or another negation.
\<close>

fun wellStacked :: "index token list \<Rightarrow> bool" where
  "wellStacked [] = True"
| "wellStacked [a] = (isOpen a \<or> isNegation a \<or> isBinaryOperator a)"
| "wellStacked (a # b # rest) =
     ((isOpen a \<or> isNegation a \<or> isBinaryOperator a) \<and>
      (\<not> isNegation b \<or> isOpen a \<or> isNegation a) \<and> wellStacked (b # rest))"

definition noNegationOnTop :: "index token list \<Rightarrow> bool" where
  "noNegationOnTop operators = (case operators of [] \<Rightarrow> True | a # rest \<Rightarrow> \<not> isNegation a)"

definition binaryCount :: "index token list \<Rightarrow> nat" where
  "binaryCount operators = length (filter isBinaryOperator operators)"

lemma wellStacked_tl: "wellStacked (a # rest) \<Longrightarrow> wellStacked rest"
  by (cases rest) simp_all

lemma wellStacked_hd: "wellStacked (a # rest) \<Longrightarrow> isOpen a \<or> isNegation a \<or> isBinaryOperator a"
  by (cases rest) simp_all

lemma wellStacked_push:
  "wellStacked operators \<Longrightarrow> isOpen a \<or> isNegation a \<or> (isBinaryOperator a \<and> noNegationOnTop operators) \<Longrightarrow>
   wellStacked (a # operators)"
  by (cases operators) (auto simp: noNegationOnTop_def)

lemma below_binary:
  "wellStacked (a # rest) \<Longrightarrow> isBinaryOperator a \<Longrightarrow> noNegationOnTop rest"
  by (cases rest) (auto simp: noNegationOnTop_def binary_kind)

lemma binaryCount_simps [simp]:
  "binaryCount [] = 0"
  "binaryCount (a # rest) = (if isBinaryOperator a then Suc (binaryCount rest) else binaryCount rest)"
  by (simp_all add: binaryCount_def)

lemma addOperand_noNegation:
  "noNegationOnTop operators \<Longrightarrow> addOperand node operands operators = (node # operands, operators)"
  by (cases operators) (simp_all add: noNegationOnTop_def isNegation_def)

lemma addOperand_result:
  assumes "wellStacked operators"
  shows "\<exists>node' operators'. addOperand node operands operators = (node' # operands, operators') \<and>
    wellStacked operators' \<and> noNegationOnTop operators' \<and> binaryCount operators' = binaryCount operators \<and>
    set operators' \<subseteq> set operators"
  using assms
proof (induction operators arbitrary: node)
  case Nil
  then show ?case by (simp add: noNegationOnTop_def)
next
  case (Cons a operators)
  show ?case
  proof (cases "isNegation a")
    case True
    from Cons.IH [OF wellStacked_tl [OF Cons.prems], of "negateNode node"]
    obtain node' operators' where "addOperand (negateNode node) operands operators = (node' # operands, operators')"
      "wellStacked operators'" "noNegationOnTop operators'" "binaryCount operators' = binaryCount operators"
      "set operators' \<subseteq> set operators" by blast
    moreover have "\<not> isBinaryOperator a" using True binary_kind(2) by blast
    moreover have "type a = jstr ''~''" using True by (simp add: isNegation_def)
    ultimately show ?thesis by auto
  next
    case False
    with Cons.prems show ?thesis
      by (auto simp: isNegation_def noNegationOnTop_def)
  qed
qed

text \<open>
  In the state where an operator is expected, with no negation on top of the operator
  stack and one operand more than binary connectives on it, the loop for a binary
  connective or the end marker returns stacks of the same kind; for the end marker, the
  operator stack is then empty or has an open parenthesis on top.
\<close>

lemma evaluateHigher_result:
  assumes "wellStacked operators" and "noNegationOnTop operators"
    and "length operands = binaryCount operators + 1"
    and "isBinaryOperator currToken \<or> isEOF currToken"
  shows "\<exists>operators' operands'. evaluateHigher currToken operators operands = Inr (operators', operands') \<and>
    wellStacked operators' \<and> noNegationOnTop operators' \<and>
    length operands' = binaryCount operators' + 1 \<and> set operators' \<subseteq> set operators \<and>
    (isEOF currToken \<longrightarrow> operators' = [] \<or> isOpen (hd operators'))"
  using assms(1-3)
proof (induction "length operators" arbitrary: operators operands rule: less_induct)
  case less
  from assms(4) obtain q where q: "priorityOf currToken = Inr q" "isEOF currToken \<longrightarrow> q = - 1"
    using binary_kind(4) [of currToken] eof_kind(5) [of currToken] by (cases "isEOF currToken") auto
  show ?case
  proof (cases operators)
    case Nil
    with less.prems show ?thesis
      by (subst evaluateHigher.simps) simp
  next
    case (Cons a rest)
    show ?thesis
    proof (cases "isOpen a")
      case True
      with Cons less.prems show ?thesis
        by (subst evaluateHigher.simps) (simp add: topOf_def isOpen_def)
    next
      case False
      with less.prems(1,2) Cons have bin: "isBinaryOperator a"
        using wellStacked_hd [of a rest] by (auto simp: noNegationOnTop_def)
      from binary_kind(4) [OF bin] obtain p where p: "priorityOf a = Inr p" "0 \<le> p" by blast
      show ?thesis
      proof (cases "p \<le> q")
        case True
        with p q have "\<not> isEOF currToken" by auto
        with True Cons less.prems False p q show ?thesis
          by (subst evaluateHigher.simps) (simp add: topOf_def isOpen_def)
      next
        case notLess: False
        from less.prems(3) Cons bin obtain rhs lhs others where
          operands: "operands = rhs # lhs # others" "length others = binaryCount rest"
          by (cases operands; cases "tl operands") auto
        from binary_kind(5) [OF bin] obtain node where node: "createOperatorNode lhs a rhs = Inr node"
          by blast
        have rest: "wellStacked rest" "noNegationOnTop rest"
          using less.prems(1) Cons bin by (auto intro: wellStacked_tl below_binary)
        have add: "addOperand node others rest = (node # others, rest)"
          using rest(2) by (rule addOperand_noNegation)
        have "length rest < length operators" using Cons by simp
        from less.hyps [OF this rest, of "node # others"] operands(2)
        obtain operators' operands' where
          r: "evaluateHigher currToken rest (node # others) = Inr (operators', operands')"
          "wellStacked operators'" "noNegationOnTop operators'"
          "length operands' = binaryCount operators' + 1" "set operators' \<subseteq> set rest"
          "isEOF currToken \<longrightarrow> operators' = [] \<or> isOpen (hd operators')"
          by auto
        have "evaluateHigher currToken operators operands = evaluateHigher currToken rest (node # others)"
          using Cons False p q notLess operands(1) node add
          by (subst evaluateHigher.simps) (simp add: topOf_def isOpen_def)
        with r Cons show ?thesis by auto
      qed
    qed
  qed
qed

text \<open>The description of the error of the close parenthesis branch for a negation on the stack.\<close>

definition nothingNegated :: jstring where
  "nothingNegated = jstr ''Nada '' @ [233] @ jstr '' negado por este operador.''"

text \<open>
  An error of \<open>parseError\<close> other than the one of \<open>nothingNegated\<close>, whose range is
  \<open>0, 0\<close> or the range of a token with the property \<open>P\<close>.
\<close>

definition userError :: "(index token \<Rightarrow> bool) \<Rightarrow> failure \<Rightarrow> bool" where
  "userError P e =
     (\<exists>d s e'. e = Thrown d s e' \<and> d \<noteq> nothingNegated \<and>
        ((s = 0 \<and> e' = 0) \<or> (\<exists>t. P t \<and> s = start t \<and> e' = end' t)))"

lemma userError_token:
  "P t \<Longrightarrow> d \<noteq> nothingNegated \<Longrightarrow> userError P (Thrown d (start t) (end' t))"
  by (auto simp: userError_def)

lemma open_not_binary: "isOpen t \<Longrightarrow> \<not> isBinaryOperator t"
  using binary_kind(1) by blast

lemma negation_not_binary: "isNegation t \<Longrightarrow> \<not> isBinaryOperator t"
  using binary_kind(2) by blast

lemma closeParenthesis_result:
  assumes "wellStacked operators" and "noNegationOnTop operators"
    and "length operands = binaryCount operators + 1"
    and "\<forall>t \<in> set operators. P t" and "P currToken"
  shows "(\<exists>e. closeParenthesis currToken operators operands = Inl e \<and> userError P e) \<or>
    (\<exists>operators' operands'. closeParenthesis currToken operators operands = Inr (operators', operands') \<and>
       wellStacked operators' \<and> length operands' = binaryCount operators' + 1 \<and>
       set operators' \<subseteq> set operators)"
  using assms(1-4)
proof (induction "length operators" arbitrary: operators operands rule: less_induct)
  case less
  show ?case
  proof (cases operators)
    case Nil
    have "jstr ''Este par'' @ [234] @ jstr ''ntesis fechado n'' @ [227] @
        jstr ''o corresponde a nenhum par'' @ [234] @ jstr ''ntesis aberto.'' \<noteq> nothingNegated"
      by (simp add: nothingNegated_def jstr_def)
    from userError_token [where P = P and t = currToken, OF assms(5) this] Nil show ?thesis
      by (subst closeParenthesis.simps) (simp add: parseError_def)
  next
    case (Cons a rest)
    show ?thesis
    proof (cases "isOpen a")
      case True
      with Cons less.prems show ?thesis
        by (subst closeParenthesis.simps)
          (auto simp: isOpen_def [symmetric] open_not_binary intro: wellStacked_tl)
    next
      case False
      from less.prems(2) Cons have notNeg: "\<not> isNegation a" by (simp add: noNegationOnTop_def)
      with False less.prems(1) Cons have bin: "isBinaryOperator a"
        using wellStacked_hd [of a rest] by auto
      from less.prems(3) Cons bin obtain rhs lhs others where
        operands: "operands = rhs # lhs # others" "length others = binaryCount rest"
        by (cases operands; cases "tl operands") auto
      from binary_kind(5) [OF bin] obtain node where node: "createOperatorNode lhs a rhs = Inr node"
        by blast
      have rest: "wellStacked rest" "noNegationOnTop rest"
        using less.prems(1) Cons bin by (auto intro: wellStacked_tl below_binary)
      have add: "addOperand node others rest = (node # others, rest)"
        using rest(2) by (rule addOperand_noNegation)
      have "length rest < length operators" using Cons by simp
      moreover have "length (node # others) = binaryCount rest + 1" using operands(2) by simp
      moreover have "\<forall>t \<in> set rest. P t" using less.prems(4) Cons by simp
      ultimately have IH: "(\<exists>e. closeParenthesis currToken rest (node # others) = Inl e \<and> userError P e) \<or>
        (\<exists>operators' operands'. closeParenthesis currToken rest (node # others) = Inr (operators', operands') \<and>
           wellStacked operators' \<and> length operands' = binaryCount operators' + 1 \<and>
           set operators' \<subseteq> set rest)"
        using less.hyps rest by blast
      have "closeParenthesis currToken operators operands = closeParenthesis currToken rest (node # others)"
        using Cons False notNeg operands(1) node add
        by (subst closeParenthesis.simps) (simp add: isOpen_def isNegation_def)
      with IH Cons show ?thesis by auto
    qed
  qed
qed

text \<open>The invariant of the loop over the tokens, and the state in which the loop is left.\<close>

definition parserInvariant ::
  "(index token \<Rightarrow> bool) \<Rightarrow> index token list \<times> ast list \<times> bool \<Rightarrow> bool" where
  "parserInvariant P state =
     (case state of (operators, operands, needOperand) \<Rightarrow>
        wellStacked operators \<and> list_all P operators \<and>
        (needOperand \<or> noNegationOnTop operators) \<and>
        length operands = binaryCount operators + (if needOperand then 0 else 1))"

definition finished ::
  "(index token \<Rightarrow> bool) \<Rightarrow> index token list \<times> ast list \<times> bool \<Rightarrow> bool" where
  "finished P state =
     (case state of (operators, operands, needOperand) \<Rightarrow>
        \<exists>eof rest. operators = eof # rest \<and> isEOF eof \<and> (rest = [] \<or> isOpen (hd rest)) \<and>
          list_all P rest \<and> length operands = binaryCount rest + 1 \<and> needOperand)"

text \<open>What one round of the loop may do, from a state that satisfies the invariant.\<close>

definition stepped ::
  "(index token \<Rightarrow> bool) \<Rightarrow> index token \<Rightarrow>
   failure + (index token list \<times> ast list \<times> bool) control \<Rightarrow> bool" where
  "stepped P currToken r =
     (case r of
        Inl e \<Rightarrow> userError P e
      | Inr (Continue state) \<Rightarrow> parserInvariant P state \<and> \<not> isEOF currToken
      | Inr (Break state) \<Rightarrow> finished P state)"

lemma parseToken_needOperand:
  assumes "parserInvariant P (operators, operands, True)" and "isEOF currToken \<or> P currToken"
  shows "stepped P currToken (parseToken currToken (operators, operands, True))"
proof -
  from assms(1) have inv: "wellStacked operators" "list_all P operators"
    "length operands = binaryCount operators"
    by (simp_all add: parserInvariant_def)
  show ?thesis
  proof (cases "isOperand currToken")
    case True
    from operand_kind [OF True] obtain node where node: "wrapOperand currToken = Inr node" by blast
    from addOperand_result [OF inv(1), of node operands]
    obtain node' operators' where add: "addOperand node operands operators = (node' # operands, operators')"
      "wellStacked operators'" "noNegationOnTop operators'" "binaryCount operators' = binaryCount operators"
      "set operators' \<subseteq> set operators" by blast
    have "list_all P operators'" using add(5) inv(2) by (auto simp: list_all_iff)
    moreover have "\<not> isEOF currToken" using True eof_kind(4) by blast
    ultimately show ?thesis
      using True node add inv(3)
      by (simp add: parseToken_def stepped_def parserInvariant_def)
  next
    case notOperand: False
    show ?thesis
    proof (cases "isOpen currToken \<or> isNegation currToken")
      case True
      then have "\<not> isEOF currToken" "\<not> isBinaryOperator currToken"
        using eof_kind(1,2) open_not_binary negation_not_binary by blast+
      moreover from this assms(2) have "P currToken" by simp
      moreover have "wellStacked (currToken # operators)"
        using True inv(1) by (intro wellStacked_push) auto
      ultimately show ?thesis
        using True notOperand inv
        by (simp add: parseToken_def stepped_def parserInvariant_def isOpen_def [symmetric]
            isNegation_def [symmetric])
    next
      case notPush: False
      have m1: "jstr ''Este par'' @ [234] @ jstr ''ntesis aberto n'' @ [227] @ jstr ''o tem par'' @
          [234] @ jstr ''ntesis fechado correspondente.'' \<noteq> nothingNegated"
        and m2: "jstr ''Falta um operando a este operador.'' \<noteq> nothingNegated"
        and m3: "jstr ''Esper'' @ [225] @ jstr ''vamos aqui uma vari'' @ [225] @
          jstr ''vel, uma constante ou um par'' @ [234] @ jstr ''ntesis aberto.'' \<noteq> nothingNegated"
        and m0: "[] \<noteq> nothingNegated"
        by (simp_all add: nothingNegated_def jstr_def)
      show ?thesis
      proof (cases "isEOF currToken")
        case True
        show ?thesis
        proof (cases operators)
          case Nil
          with True notOperand notPush m0 show ?thesis
            by (simp add: parseToken_def stepped_def isOpen_def [symmetric] isNegation_def [symmetric]
                isEOF_def [symmetric] parseError_def userError_def)
        next
          case (Cons a rest)
          with inv(2) have "P a" by simp
          from userError_token [where P = P and t = a, OF this m1] userError_token [where P = P and t = a, OF this m2]
          show ?thesis
            using True notOperand notPush Cons
            by (simp add: parseToken_def stepped_def isOpen_def [symmetric] isNegation_def [symmetric]
                isEOF_def [symmetric] parseError_def topOf_def)
        qed
      next
        case False
        with assms(2) have "P currToken" by simp
        from userError_token [where P = P and t = currToken, OF this m3] show ?thesis
          using False notOperand notPush
          by (simp add: parseToken_def stepped_def isOpen_def [symmetric] isNegation_def [symmetric]
              isEOF_def [symmetric] parseError_def)
      qed
    qed
  qed
qed

lemma parseToken_needOperator:
  assumes "parserInvariant P (operators, operands, False)" and "isEOF currToken \<or> P currToken"
  shows "stepped P currToken (parseToken currToken (operators, operands, False))"
proof -
  from assms(1) have inv: "wellStacked operators" "list_all P operators" "noNegationOnTop operators"
    "length operands = binaryCount operators + 1"
    by (simp_all add: parserInvariant_def)
  show ?thesis
  proof (cases "isBinaryOperator currToken \<or> isEOF currToken")
    case True
    from evaluateHigher_result [OF inv(1,3,4) True]
    obtain operators' operands' where r: "evaluateHigher currToken operators operands = Inr (operators', operands')"
      "wellStacked operators'" "noNegationOnTop operators'"
      "length operands' = binaryCount operators' + 1" "set operators' \<subseteq> set operators"
      "isEOF currToken \<longrightarrow> operators' = [] \<or> isOpen (hd operators')"
      by blast
    have P: "list_all P operators'" using r(5) inv(2) by (auto simp: list_all_iff)
    show ?thesis
    proof (cases "isEOF currToken")
      case eof: True
      from eof r P show ?thesis
        by (simp add: parseToken_def stepped_def finished_def isEOF_def [symmetric])
    next
      case False
      with True assms(2) have bin: "isBinaryOperator currToken" and "P currToken" by simp_all
      moreover have "wellStacked (currToken # operators')"
        using bin r(2,3) by (intro wellStacked_push) auto
      ultimately show ?thesis
        using False r P
        by (simp add: parseToken_def stepped_def parserInvariant_def isEOF_def [symmetric])
    qed
  next
    case notBinary: False
    with assms(2) have Pc: "P currToken" by simp
    show ?thesis
    proof (cases "type currToken = jstr '')''")
      case True
      have ne: "type currToken \<noteq> kScannerConstants_EOF" using notBinary by (simp add: isEOF_def)
      from closeParenthesis_result [where P = P and currToken = currToken, OF inv(1,3,4) _ Pc] inv(2)
      consider e where "closeParenthesis currToken operators operands = Inl e" "userError P e"
        | operators' operands' where "closeParenthesis currToken operators operands = Inr (operators', operands')"
          "wellStacked operators'" "length operands' = binaryCount operators' + 1"
          "set operators' \<subseteq> set operators"
        by (auto simp: list_all_iff)
      then show ?thesis
      proof cases
        case 1
        with True notBinary ne show ?thesis
          by (simp add: parseToken_def stepped_def)
      next
        case 2
        from 2(3) obtain expr rest where operands': "operands' = expr # rest" "length rest = binaryCount operators'"
          by (cases operands') auto
        from addOperand_result [OF 2(2), of expr rest]
        obtain node' operators'' where add: "addOperand expr rest operators' = (node' # rest, operators'')"
          "wellStacked operators''" "noNegationOnTop operators''"
          "binaryCount operators'' = binaryCount operators'" "set operators'' \<subseteq> set operators'" by blast
        have "list_all P operators''" using add(5) 2(4) inv(2) by (auto simp: list_all_iff)
        with True notBinary ne 2(1) operands' add show ?thesis
          by (simp add: parseToken_def stepped_def parserInvariant_def)
      qed
    next
      case False
      have "jstr ''Esper'' @ [225] @ jstr ''vamos aqui um par'' @ [234] @
          jstr ''ntesis fechado ou um conectivo bin'' @ [225] @ jstr ''rio.'' \<noteq> nothingNegated"
        by (simp add: nothingNegated_def jstr_def)
      from userError_token [where P = P and t = currToken, OF Pc this] show ?thesis
        using False notBinary
        by (simp add: parseToken_def stepped_def isEOF_def [symmetric] parseError_def)
    qed
  qed
qed

lemma parseToken_stepped:
  assumes "parserInvariant P state" and "isEOF currToken \<or> P currToken"
  shows "stepped P currToken (parseToken currToken state)"
proof -
  obtain operators operands needOperand where state: "state = (operators, operands, needOperand)"
    by (cases state)
  show ?thesis
    using assms parseToken_needOperand [of P operators operands currToken]
      parseToken_needOperator [of P operators operands currToken]
    unfolding state by (cases needOperand) simp_all
qed

lemma parseLoop_invariant:
  assumes "parserInvariant P state" and "list_all (\<lambda>t. isEOF t \<or> P t) tokens"
  shows "case parseLoop tokens state of
      Inl e \<Rightarrow> userError P e
    | Inr state' \<Rightarrow> parserInvariant P state' \<or> finished P state'"
  using assms
proof (induction tokens arbitrary: state)
  case Nil
  then show ?case by simp
next
  case (Cons currToken tokens)
  from Cons.prems have "stepped P currToken (parseToken currToken state)"
    by (intro parseToken_stepped) simp_all
  then show ?case
  proof (cases "parseToken currToken state")
    case (Inl e)
    with \<open>stepped P currToken (parseToken currToken state)\<close> show ?thesis
      by (simp add: stepped_def)
  next
    case (Inr c)
    show ?thesis
    proof (cases c)
      case (Continue state')
      with Inr \<open>stepped P currToken (parseToken currToken state)\<close>
      have "parserInvariant P state'" by (simp add: stepped_def)
      from Cons.IH [OF this] Cons.prems(2) show ?thesis
        by (simp add: Inr Continue)
    next
      case (Break state')
      with Inr \<open>stepped P currToken (parseToken currToken state)\<close> show ?thesis
        by (simp add: stepped_def)
    qed
  qed
qed

lemma parseLoop_finished:
  assumes "parserInvariant P state" and "list_all (\<lambda>t. isEOF t \<or> P t) tokens"
    and "list_ex isEOF tokens"
  shows "case parseLoop tokens state of
      Inl e \<Rightarrow> userError P e
    | Inr state' \<Rightarrow> finished P state'"
  using assms
proof (induction tokens arbitrary: state)
  case Nil
  then show ?case by simp
next
  case (Cons currToken tokens)
  from Cons.prems have s: "stepped P currToken (parseToken currToken state)"
    by (intro parseToken_stepped) simp_all
  show ?case
  proof (cases "parseToken currToken state")
    case (Inl e)
    with s show ?thesis by (simp add: stepped_def)
  next
    case (Inr c)
    show ?thesis
    proof (cases c)
      case (Continue state')
      with Inr s have "parserInvariant P state'" "\<not> isEOF currToken" by (simp_all add: stepped_def)
      with Cons.IH [of state'] Cons.prems(2,3) show ?thesis
        by (simp add: Inr Continue)
    next
      case (Break state')
      with Inr s show ?thesis by (simp add: stepped_def)
    qed
  qed
qed

lemma finishParse_finished:
  assumes "finished P (operators, operands, needOperand)"
  shows "(\<exists>e. finishParse operators operands names = Inl e \<and> userError P e) \<or>
    (\<exists>root. finishParse operators operands names = Inr \<lparr>ast = root, variables = names\<rparr>)"
proof -
  from assms obtain eof rest where f: "operators = eof # rest" "isEOF eof"
    "rest = [] \<or> isOpen (hd rest)" "list_all P rest" "length operands = binaryCount rest + 1"
    by (auto simp: finished_def)
  from f(5) obtain root others where operands: "operands = root # others" by (cases operands) auto
  have m: "jstr ''N'' @ [227] @ jstr ''o h'' @ [225] @ jstr '' par'' @ [234] @
      jstr ''ntesis fechado correspondente para este par'' @ [234] @ jstr ''ntesis aberto.'' \<noteq> nothingNegated"
    by (simp add: nothingNegated_def jstr_def)
  show ?thesis
  proof (cases rest)
    case Nil
    with f operands show ?thesis by (simp add: finishParse_def isEOF_def)
  next
    case (Cons a rest')
    with f have "isOpen a" "P a" by simp_all
    from userError_token [where P = P and t = a, OF this(2) m] this(1) Cons f(1,2)
    show ?thesis by (simp add: finishParse_def isEOF_def isOpen_def parseError_def)
  qed
qed

lemma parserInvariant_initial: "parserInvariant P ([], [], True)"
  by (simp add: parserInvariant_def)

lemma strayCharacter_not_nothingNegated: "strayCharacter c \<noteq> nothingNegated"
  by (simp add: strayCharacter_def nothingNegated_def jstr_def)

text \<open>
  Every run of \<open>parse\<close> returns a result or throws an error object other than the one of
  \<open>nothingNegated\<close>, whose range lies inside the input.
\<close>

lemma parse_outcome:
  "(\<exists>r. parse input = Inr r) \<or>
   (\<exists>d s e. parse input = Inl (Thrown d s e) \<and> d \<noteq> nothingNegated \<and> s \<le> e \<and> e \<le> length input)"
proof (cases "scan input")
  case (Inl e)
  from scan_Inl [OF Inl] obtain d s where "s < length input" "e = Thrown d s (s + 1)"
    "d = jstr ''Illegal character'' \<or> (\<exists>c. d = strayCharacter [c])" by blast
  moreover have "jstr ''Illegal character'' \<noteq> nothingNegated"
    by (simp add: nothingNegated_def jstr_def)
  ultimately have "parse input = Inl (Thrown d s (s + 1)) \<and> d \<noteq> nothingNegated \<and> s \<le> s + 1 \<and>
      s + 1 \<le> length input"
    using Inl strayCharacter_not_nothingNegated by (fastforce simp: parse_def)
  then show ?thesis by blast
next
  case (Inr scanResult)
  obtain tokens names where sr: "scanResult = (tokens, names)" by (cases scanResult)
  let ?P = "inside (length input)"
  from scan_Inr [OF Inr [unfolded sr]] obtain body eof where
    t: "tokens = body @ [eof]" "type eof = kScannerConstants_EOF" "\<forall>t \<in> set body. ?P t" by blast
  then have all: "list_all (\<lambda>t. isEOF t \<or> ?P t) tokens" and ex: "list_ex isEOF tokens"
    by (auto simp: list_all_iff list_ex_iff isEOF_def)
  have bounds: "\<exists>d s e'. e = Thrown d s e' \<and> d \<noteq> nothingNegated \<and> s \<le> e' \<and> e' \<le> length input"
    if "userError ?P e" for e
    using that by (auto simp: userError_def inside_def)
  from parseLoop_finished [OF parserInvariant_initial all ex]
  show ?thesis
  proof (cases "parseLoop tokens ([], [], True)")
    case (Inl e)
    with parseLoop_finished [OF parserInvariant_initial all ex] have "userError ?P e" by simp
    from bounds [OF this] Inl Inr sr show ?thesis by (auto simp: parse_def)
  next
    case right: (Inr state)
    obtain operators operands needOperand where state: "state = (operators, operands, needOperand)"
      by (cases state)
    from right parseLoop_finished [OF parserInvariant_initial all ex]
    have "finished ?P (operators, operands, needOperand)" by (simp add: state)
    from finishParse_finished [OF this, of names] show ?thesis
    proof (elim disjE exE conjE)
      fix e assume "finishParse operators operands names = Inl e" "userError ?P e"
      with bounds [of e] right state Inr sr show ?thesis by (auto simp: parse_def)
    next
      fix root assume "finishParse operators operands names = Inr \<lparr>ast = root, variables = names\<rparr>"
      with right state Inr sr show ?thesis by (simp add: parse_def)
    qed
  qed
qed

text \<open>
  Claim C6. For every input string, \<open>parse\<close> returns a result or throws an error object
  \<open>{description, start, end}\<close>. No assertion fails (in particular, after the loop the
  operator stack is not empty and has the end marker on top), no \<open>unreachable\<close> is reached
  (\<open>priorityOf\<close>, \<open>createOperatorNode\<close> and \<open>wrapOperand\<close> only get tokens they handle), no
  stack is popped when it is empty, and no lexeme that was announced is missing.
\<close>

theorem parse_returns_or_throws_error_object:
  "((\<exists>r. parse input = Inr r) \<or> (\<exists>description s e. parse input = Inl (Thrown description s e))) \<and>
   parse input \<noteq> Inl (AssertionFailed what) \<and>
   parse input \<noteq> Inl (UnreachableCode why) \<and>
   parse input \<noteq> Inl PopOfEmptyStack \<and>
   parse input \<noteq> Inl TypeError"
  using parse_outcome [of input] by auto

text \<open>
  Claim C7. Every error object that \<open>parse\<close> throws, from the scanner or from the parser,
  has \<open>start \<le> end \<le> input.length\<close> for the input as it was given (\<open>0 \<le> start\<close> holds
  for every natural number).
\<close>

theorem parse_error_range_inside_input:
  "parse input = Inl (Thrown description s e) \<Longrightarrow> s \<le> e \<and> e \<le> length input"
  using parse_outcome [of input] by auto

lemma parse_open_p:
  "parse (jstr ''(p'') =
     Inl (Thrown (jstr ''N'' @ [227] @ jstr ''o h'' @ [225] @ jstr '' par'' @ [234] @
       jstr ''ntesis fechado correspondente para este par'' @ [234] @ jstr ''ntesis aberto.'') 0 1)"
  by (simp add: scan_eval parse_eval)

theorem parse_error_range_inside_input_witness:
  "parse (jstr ''(p'') =
     Inl (Thrown (jstr ''N'' @ [227] @ jstr ''o h'' @ [225] @ jstr '' par'' @ [234] @
       jstr ''ntesis fechado correspondente para este par'' @ [234] @ jstr ''ntesis aberto.'') 0 1) \<and>
   (0 :: nat) \<le> 1 \<and> 1 \<le> length (jstr ''(p'')"
  using parse_open_p parse_error_range_inside_input [OF parse_open_p] by simp

text \<open>
  Claim C10. After any sequence of tokens, when the loop of \<open>parse\<close> is in the state where
  an operator is expected (\<open>needOperand\<close> is false), the operator stack is empty or its
  top is not a negation; and for no input does \<open>parse\<close> throw the error of the close
  parenthesis branch for a negation on the stack.
\<close>

theorem no_negation_on_top_when_operator_expected:
  "(parseLoop tokens ([], [], True) = Inr (operators, operands, False) \<longrightarrow>
      operators = [] \<or> type (hd operators) \<noteq> jstr ''~'') \<and>
   parse input \<noteq> Inl (Thrown (jstr ''Nada '' @ [233] @ jstr '' negado por este operador.'') s e)"
proof (intro conjI impI)
  assume r: "parseLoop tokens ([], [], True) = Inr (operators, operands, False)"
  have "list_all (\<lambda>t. isEOF t \<or> True) tokens" by (simp add: list_all_iff)
  from parseLoop_invariant [where P = "\<lambda>t. True", OF parserInvariant_initial this] r
  have "parserInvariant (\<lambda>t. True) (operators, operands, False)"
    by (simp add: finished_def)
  then show "operators = [] \<or> type (hd operators) \<noteq> jstr ''~''"
    by (cases operators) (simp_all add: parserInvariant_def noNegationOnTop_def isNegation_def)
next
  show "parse input \<noteq> Inl (Thrown (jstr ''Nada '' @ [233] @ jstr '' negado por este operador.'') s e)"
    using parse_outcome [of input] by (auto simp: nothingNegated_def)
qed

theorem no_negation_on_top_when_operator_expected_witness:
  "parseLoop [\<lparr>type = jstr ''('', index = None, start = 0, end' = 1\<rparr>,
              \<lparr>type = jstr ''~'', index = None, start = 1, end' = 2\<rparr>,
              \<lparr>type = jstr ''variable'', index = Some (Number 0), start = 2, end' = 3\<rparr>] ([], [], True) =
     Inr ([\<lparr>type = jstr ''('', index = None, start = 0, end' = 1\<rparr>],
          [negateNode (variableNode (Number 0))], False) \<and>
   type (hd [\<lparr>type = jstr ''('', index = None :: index option, start = 0, end' = 1\<rparr>]) \<noteq> jstr ''~''"
  using no_negation_on_top_when_operator_expected
    [of "[\<lparr>type = jstr ''('', index = None, start = 0, end' = 1\<rparr>,
          \<lparr>type = jstr ''~'', index = None, start = 1, end' = 2\<rparr>,
          \<lparr>type = jstr ''variable'', index = Some (Number 0), start = 2, end' = 3\<rparr>]"
        "[\<lparr>type = jstr ''('', index = None, start = 0, end' = 1\<rparr>]"
        "[negateNode (variableNode (Number 0))]"]
  by (simp add: parse_eval jstr_def)

section \<open>The spellings of the operators\<close>

text \<open>
  The table of the specification: every accepted spelling, with the type string of the
  token that stands for its canonical kind (\<open>/\\<close> for and, \<open>\/\<close> for or, \<open>->\<close> for
  implies, \<open><->\<close> for iff, \<open>~\<close> for not, \<open>T\<close> and \<open>F\<close> for the constants, and the two
  parentheses).
\<close>

definition specSpellings :: "(jstring \<times> jstring) list" where
  "specSpellings =
     [(jstr ''/'' @ backslash, jstr ''/'' @ backslash),
      (jstr ''&&'', jstr ''/'' @ backslash),
      (jstr ''and'', jstr ''/'' @ backslash),
      (jstr ''^'', jstr ''/'' @ backslash),
      ([8743], jstr ''/'' @ backslash),
      (backslash @ jstr ''land'', jstr ''/'' @ backslash),
      (backslash @ jstr ''wedge'', jstr ''/'' @ backslash),
      (backslash @ jstr ''/'', backslash @ jstr ''/''),
      (jstr ''||'', backslash @ jstr ''/''),
      (jstr ''or'', backslash @ jstr ''/''),
      ([8744], backslash @ jstr ''/''),
      (backslash @ jstr ''lor'', backslash @ jstr ''/''),
      (backslash @ jstr ''vee'', backslash @ jstr ''/''),
      (jstr ''->'', jstr ''->''),
      (jstr ''=>'', jstr ''->''),
      (jstr ''implies'', jstr ''->''),
      ([8594], jstr ''->''),
      (backslash @ jstr ''to'', jstr ''->''),
      (backslash @ jstr ''rightarrow'', jstr ''->''),
      (backslash @ jstr ''Rightarrow'', jstr ''->''),
      (jstr ''<->'', jstr ''<->''),
      (jstr ''<=>'', jstr ''<->''),
      (jstr ''iff'', jstr ''<->''),
      ([8596], jstr ''<->''),
      (backslash @ jstr ''leftrightarrow'', jstr ''<->''),
      (backslash @ jstr ''Leftrightarrow'', jstr ''<->''),
      (jstr ''~'', jstr ''~''),
      (jstr ''!'', jstr ''~''),
      (jstr ''not'', jstr ''~''),
      ([172], jstr ''~''),
      (backslash @ jstr ''lnot'', jstr ''~''),
      (backslash @ jstr ''neg'', jstr ''~''),
      (jstr ''T'', jstr ''T''),
      (jstr ''true'', jstr ''T''),
      ([8868], jstr ''T''),
      (backslash @ jstr ''top'', jstr ''T''),
      (jstr ''F'', jstr ''F''),
      (jstr ''false'', jstr ''F''),
      ([8869], jstr ''F''),
      (backslash @ jstr ''bot'', jstr ''F''),
      (jstr ''('', jstr ''(''),
      (jstr '')'', jstr '')'')]"

lemma scan_and_spellings:
  "scan (jstr ''/'' @ backslash) =
     Inr ([\<lparr>type = jstr ''/'' @ backslash, index = None, start = 0, end' = 2\<rparr>,
           \<lparr>type = jstr ''$'', index = None, start = 2, end' = 3\<rparr>], [])"
  "scan (jstr ''&&'') =
     Inr ([\<lparr>type = jstr ''/'' @ backslash, index = None, start = 0, end' = 2\<rparr>,
           \<lparr>type = jstr ''$'', index = None, start = 2, end' = 3\<rparr>], [])"
  "scan (jstr ''and'') =
     Inr ([\<lparr>type = jstr ''/'' @ backslash, index = None, start = 0, end' = 3\<rparr>,
           \<lparr>type = jstr ''$'', index = None, start = 3, end' = 4\<rparr>], [])"
  "scan (jstr ''^'') =
     Inr ([\<lparr>type = jstr ''/'' @ backslash, index = None, start = 0, end' = 1\<rparr>,
           \<lparr>type = jstr ''$'', index = None, start = 1, end' = 2\<rparr>], [])"
  "scan ([8743]) =
     Inr ([\<lparr>type = jstr ''/'' @ backslash, index = None, start = 0, end' = 1\<rparr>,
           \<lparr>type = jstr ''$'', index = None, start = 1, end' = 2\<rparr>], [])"
  "scan (backslash @ jstr ''land'') =
     Inr ([\<lparr>type = jstr ''/'' @ backslash, index = None, start = 0, end' = 5\<rparr>,
           \<lparr>type = jstr ''$'', index = None, start = 5, end' = 6\<rparr>], [])"
  "scan (backslash @ jstr ''wedge'') =
     Inr ([\<lparr>type = jstr ''/'' @ backslash, index = None, start = 0, end' = 6\<rparr>,
           \<lparr>type = jstr ''$'', index = None, start = 6, end' = 7\<rparr>], [])"
  by (simp_all add: scan_eval)

lemma scan_or_spellings:
  "scan (backslash @ jstr ''/'') =
     Inr ([\<lparr>type = backslash @ jstr ''/'', index = None, start = 0, end' = 2\<rparr>,
           \<lparr>type = jstr ''$'', index = None, start = 2, end' = 3\<rparr>], [])"
  "scan (jstr ''||'') =
     Inr ([\<lparr>type = backslash @ jstr ''/'', index = None, start = 0, end' = 2\<rparr>,
           \<lparr>type = jstr ''$'', index = None, start = 2, end' = 3\<rparr>], [])"
  "scan (jstr ''or'') =
     Inr ([\<lparr>type = backslash @ jstr ''/'', index = None, start = 0, end' = 2\<rparr>,
           \<lparr>type = jstr ''$'', index = None, start = 2, end' = 3\<rparr>], [])"
  "scan ([8744]) =
     Inr ([\<lparr>type = backslash @ jstr ''/'', index = None, start = 0, end' = 1\<rparr>,
           \<lparr>type = jstr ''$'', index = None, start = 1, end' = 2\<rparr>], [])"
  "scan (backslash @ jstr ''lor'') =
     Inr ([\<lparr>type = backslash @ jstr ''/'', index = None, start = 0, end' = 4\<rparr>,
           \<lparr>type = jstr ''$'', index = None, start = 4, end' = 5\<rparr>], [])"
  "scan (backslash @ jstr ''vee'') =
     Inr ([\<lparr>type = backslash @ jstr ''/'', index = None, start = 0, end' = 4\<rparr>,
           \<lparr>type = jstr ''$'', index = None, start = 4, end' = 5\<rparr>], [])"
  by (simp_all add: scan_eval)

lemma scan_implies_spellings:
  "scan (jstr ''->'') =
     Inr ([\<lparr>type = jstr ''->'', index = None, start = 0, end' = 2\<rparr>,
           \<lparr>type = jstr ''$'', index = None, start = 2, end' = 3\<rparr>], [])"
  "scan (jstr ''=>'') =
     Inr ([\<lparr>type = jstr ''->'', index = None, start = 0, end' = 2\<rparr>,
           \<lparr>type = jstr ''$'', index = None, start = 2, end' = 3\<rparr>], [])"
  "scan (jstr ''implies'') =
     Inr ([\<lparr>type = jstr ''->'', index = None, start = 0, end' = 7\<rparr>,
           \<lparr>type = jstr ''$'', index = None, start = 7, end' = 8\<rparr>], [])"
  "scan ([8594]) =
     Inr ([\<lparr>type = jstr ''->'', index = None, start = 0, end' = 1\<rparr>,
           \<lparr>type = jstr ''$'', index = None, start = 1, end' = 2\<rparr>], [])"
  "scan (backslash @ jstr ''to'') =
     Inr ([\<lparr>type = jstr ''->'', index = None, start = 0, end' = 3\<rparr>,
           \<lparr>type = jstr ''$'', index = None, start = 3, end' = 4\<rparr>], [])"
  "scan (backslash @ jstr ''rightarrow'') =
     Inr ([\<lparr>type = jstr ''->'', index = None, start = 0, end' = 11\<rparr>,
           \<lparr>type = jstr ''$'', index = None, start = 11, end' = 12\<rparr>], [])"
  "scan (backslash @ jstr ''Rightarrow'') =
     Inr ([\<lparr>type = jstr ''->'', index = None, start = 0, end' = 11\<rparr>,
           \<lparr>type = jstr ''$'', index = None, start = 11, end' = 12\<rparr>], [])"
  by (simp_all add: scan_eval)

lemma scan_iff_spellings:
  "scan (jstr ''<->'') =
     Inr ([\<lparr>type = jstr ''<->'', index = None, start = 0, end' = 3\<rparr>,
           \<lparr>type = jstr ''$'', index = None, start = 3, end' = 4\<rparr>], [])"
  "scan (jstr ''<=>'') =
     Inr ([\<lparr>type = jstr ''<->'', index = None, start = 0, end' = 3\<rparr>,
           \<lparr>type = jstr ''$'', index = None, start = 3, end' = 4\<rparr>], [])"
  "scan (jstr ''iff'') =
     Inr ([\<lparr>type = jstr ''<->'', index = None, start = 0, end' = 3\<rparr>,
           \<lparr>type = jstr ''$'', index = None, start = 3, end' = 4\<rparr>], [])"
  "scan ([8596]) =
     Inr ([\<lparr>type = jstr ''<->'', index = None, start = 0, end' = 1\<rparr>,
           \<lparr>type = jstr ''$'', index = None, start = 1, end' = 2\<rparr>], [])"
  "scan (backslash @ jstr ''leftrightarrow'') =
     Inr ([\<lparr>type = jstr ''<->'', index = None, start = 0, end' = 15\<rparr>,
           \<lparr>type = jstr ''$'', index = None, start = 15, end' = 16\<rparr>], [])"
  "scan (backslash @ jstr ''Leftrightarrow'') =
     Inr ([\<lparr>type = jstr ''<->'', index = None, start = 0, end' = 15\<rparr>,
           \<lparr>type = jstr ''$'', index = None, start = 15, end' = 16\<rparr>], [])"
  by (simp_all add: scan_eval)

lemma scan_not_spellings:
  "scan (jstr ''~'') =
     Inr ([\<lparr>type = jstr ''~'', index = None, start = 0, end' = 1\<rparr>,
           \<lparr>type = jstr ''$'', index = None, start = 1, end' = 2\<rparr>], [])"
  "scan (jstr ''!'') =
     Inr ([\<lparr>type = jstr ''~'', index = None, start = 0, end' = 1\<rparr>,
           \<lparr>type = jstr ''$'', index = None, start = 1, end' = 2\<rparr>], [])"
  "scan (jstr ''not'') =
     Inr ([\<lparr>type = jstr ''~'', index = None, start = 0, end' = 3\<rparr>,
           \<lparr>type = jstr ''$'', index = None, start = 3, end' = 4\<rparr>], [])"
  "scan ([172]) =
     Inr ([\<lparr>type = jstr ''~'', index = None, start = 0, end' = 1\<rparr>,
           \<lparr>type = jstr ''$'', index = None, start = 1, end' = 2\<rparr>], [])"
  "scan (backslash @ jstr ''lnot'') =
     Inr ([\<lparr>type = jstr ''~'', index = None, start = 0, end' = 5\<rparr>,
           \<lparr>type = jstr ''$'', index = None, start = 5, end' = 6\<rparr>], [])"
  "scan (backslash @ jstr ''neg'') =
     Inr ([\<lparr>type = jstr ''~'', index = None, start = 0, end' = 4\<rparr>,
           \<lparr>type = jstr ''$'', index = None, start = 4, end' = 5\<rparr>], [])"
  by (simp_all add: scan_eval)

lemma scan_true_spellings:
  "scan (jstr ''T'') =
     Inr ([\<lparr>type = jstr ''T'', index = None, start = 0, end' = 1\<rparr>,
           \<lparr>type = jstr ''$'', index = None, start = 1, end' = 2\<rparr>], [])"
  "scan (jstr ''true'') =
     Inr ([\<lparr>type = jstr ''T'', index = None, start = 0, end' = 4\<rparr>,
           \<lparr>type = jstr ''$'', index = None, start = 4, end' = 5\<rparr>], [])"
  "scan ([8868]) =
     Inr ([\<lparr>type = jstr ''T'', index = None, start = 0, end' = 1\<rparr>,
           \<lparr>type = jstr ''$'', index = None, start = 1, end' = 2\<rparr>], [])"
  "scan (backslash @ jstr ''top'') =
     Inr ([\<lparr>type = jstr ''T'', index = None, start = 0, end' = 4\<rparr>,
           \<lparr>type = jstr ''$'', index = None, start = 4, end' = 5\<rparr>], [])"
  by (simp_all add: scan_eval)

lemma scan_false_spellings:
  "scan (jstr ''F'') =
     Inr ([\<lparr>type = jstr ''F'', index = None, start = 0, end' = 1\<rparr>,
           \<lparr>type = jstr ''$'', index = None, start = 1, end' = 2\<rparr>], [])"
  "scan (jstr ''false'') =
     Inr ([\<lparr>type = jstr ''F'', index = None, start = 0, end' = 5\<rparr>,
           \<lparr>type = jstr ''$'', index = None, start = 5, end' = 6\<rparr>], [])"
  "scan ([8869]) =
     Inr ([\<lparr>type = jstr ''F'', index = None, start = 0, end' = 1\<rparr>,
           \<lparr>type = jstr ''$'', index = None, start = 1, end' = 2\<rparr>], [])"
  "scan (backslash @ jstr ''bot'') =
     Inr ([\<lparr>type = jstr ''F'', index = None, start = 0, end' = 4\<rparr>,
           \<lparr>type = jstr ''$'', index = None, start = 4, end' = 5\<rparr>], [])"
  by (simp_all add: scan_eval)

lemma scan_open_spellings:
  "scan (jstr ''('') =
     Inr ([\<lparr>type = jstr ''('', index = None, start = 0, end' = 1\<rparr>,
           \<lparr>type = jstr ''$'', index = None, start = 1, end' = 2\<rparr>], [])"
  by (simp_all add: scan_eval)

lemma scan_close_spellings:
  "scan (jstr '')'') =
     Inr ([\<lparr>type = jstr '')'', index = None, start = 0, end' = 1\<rparr>,
           \<lparr>type = jstr ''$'', index = None, start = 1, end' = 2\<rparr>], [])"
  by (simp_all add: scan_eval)

lemma length_jstr [simp]: "length (jstr s) = length s"
  by (simp add: jstr_def)

lemma length_backslash [simp]: "length backslash = 1"
  by (simp add: backslash_def)

lemma scan_specSpellings:
  "\<forall>(s, k) \<in> set specSpellings.
     scan s = Inr ([\<lparr>type = k, index = None, start = 0, end' = length s\<rparr>,
                    \<lparr>type = kScannerConstants_EOF, index = None, start = length s,
                      end' = length s + 1\<rparr>], [])"
  unfolding specSpellings_def kScannerConstants_EOF_def
  by (simp add: scan_and_spellings scan_or_spellings scan_implies_spellings scan_iff_spellings
      scan_not_spellings scan_true_spellings scan_false_spellings scan_open_spellings
      scan_close_spellings)

text \<open>
  The first case that applies in a list of cases, each a condition with the lexeme that is
  returned under it: the shape of \<open>tryReadOperator\<close>.
\<close>

fun firstCase :: "(bool \<times> jstring) list \<Rightarrow> jstring option" where
  "firstCase [] = None"
| "firstCase ((c, s) # rest) = (if c then Some s else firstCase rest)"

lemma firstCase_longest:
  assumes "sorted_wrt (\<lambda>a b. length (snd b) \<le> length (snd a)) cases"
    and "(c, s) \<in> set cases" and "c"
  shows "\<exists>t. firstCase cases = Some t \<and> length s \<le> length t"
  using assms
proof (induction cases)
  case Nil
  then show ?case by simp
next
  case (Cons a cases)
  obtain c' s' where a: "a = (c', s')" by (cases a)
  show ?case
  proof (cases c')
    case True
    with Cons.prems a show ?thesis by auto
  next
    case False
    with Cons.prems a have "(c, s) \<in> set cases" by auto
    with Cons a False show ?thesis by auto
  qed
qed

definition operatorCases :: "jstring \<Rightarrow> nat \<Rightarrow> (bool \<times> jstring) list" where
  "operatorCases input i =
     [(i + 14 < length input \<and>
         (take 15 (drop i input) = backslash @ jstr ''leftrightarrow'' \<or>
          take 15 (drop i input) = backslash @ jstr ''Leftrightarrow''), take 15 (drop i input)),
      (i + 10 < length input \<and>
         (take 11 (drop i input) = backslash @ jstr ''rightarrow'' \<or>
          take 11 (drop i input) = backslash @ jstr ''Rightarrow''), take 11 (drop i input)),
      (i + 6 < length input \<and> take 7 (drop i input) = jstr ''implies'', take 7 (drop i input)),
      (i + 5 < length input \<and> take 6 (drop i input) = backslash @ jstr ''wedge'', take 6 (drop i input)),
      (i + 4 < length input \<and>
         (take 5 (drop i input) = jstr ''false'' \<or> take 5 (drop i input) = backslash @ jstr ''lnot'' \<or>
          take 5 (drop i input) = backslash @ jstr ''lneg'' \<or>
          take 5 (drop i input) = backslash @ jstr ''land''), take 5 (drop i input)),
      (i + 3 < length input \<and>
         (take 4 (drop i input) = jstr ''true'' \<or> take 4 (drop i input) = backslash @ jstr ''top'' \<or>
          take 4 (drop i input) = backslash @ jstr ''bot'' \<or> take 4 (drop i input) = backslash @ jstr ''lor'' \<or>
          take 4 (drop i input) = backslash @ jstr ''vee'' \<or>
          take 4 (drop i input) = backslash @ jstr ''neg''), take 4 (drop i input)),
      (i + 2 < length input \<and>
         (take 3 (drop i input) = jstr ''<->'' \<or> take 3 (drop i input) = jstr ''and'' \<or>
          take 3 (drop i input) = jstr ''<=>'' \<or> take 3 (drop i input) = jstr ''not'' \<or>
          take 3 (drop i input) = jstr ''iff'' \<or>
          take 3 (drop i input) = backslash @ jstr ''to''), take 3 (drop i input)),
      (i + 1 < length input \<and>
         (take 2 (drop i input) = jstr ''/'' @ backslash \<or> take 2 (drop i input) = backslash @ jstr ''/'' \<or>
          take 2 (drop i input) = jstr ''->'' \<or> take 2 (drop i input) = jstr ''&&'' \<or>
          take 2 (drop i input) = jstr ''||'' \<or> take 2 (drop i input) = jstr ''or'' \<or>
          take 2 (drop i input) = jstr ''=>''), take 2 (drop i input)),
      (test singleOperatorClass (charAt input i), charAt input i)]"

lemma tryReadOperator_firstCase:
  "tryReadOperator input i = firstCase (operatorCases input i)"
  unfolding tryReadOperator_def operatorCases_def Let_def substring_from firstCase.simps
  by (rule refl)

lemma operatorCases_sorted:
  "sorted_wrt (\<lambda>a b. length (snd b) \<le> length (snd a)) (operatorCases input i)"
  by (auto simp: operatorCases_def charAt_def)

text \<open>A lexeme of \<open>k\<close> characters that stands at position \<open>i\<close> fits into the input.\<close>

lemma take_fits:
  "take k (drop i input) = s \<Longrightarrow> length s = k \<Longrightarrow> 0 < k \<Longrightarrow> i + (k - 1) < length input"
  by (cases k) auto

lemma munch_case:
  assumes "(c, take k (drop i input)) \<in> set (operatorCases input i)" and "c"
    and "take k (drop i input) = s"
  shows "\<exists>t. tryReadOperator input i = Some t \<and> length s \<le> length t \<and>
    take (length t) (drop i input) = t"
proof -
  from firstCase_longest [OF operatorCases_sorted assms(1,2)]
  obtain t where t: "tryReadOperator input i = Some t" "length (take k (drop i input)) \<le> length t"
    by (auto simp: tryReadOperator_firstCase)
  with tryReadOperator_plain(3) [OF t(1)] assms(3) show ?thesis by simp
qed

lemma charAt_take: "charAt s i = take 1 (drop i s)"
  by (simp add: charAt_def take_Suc_conv_app_nth Cons_nth_drop_Suc [symmetric] take_Suc)

lemma munch_15:
  assumes "take (length s) (drop i input) = s"
    and "s \<in> set [backslash @ jstr ''leftrightarrow'', backslash @ jstr ''Leftrightarrow'']"
  shows "\<exists>t. tryReadOperator input i = Some t \<and> length s \<le> length t \<and>
    take (length t) (drop i input) = t"
proof -
  from assms(2) have len: "length s = 15" by auto
  with assms(1) have t: "take 15 (drop i input) = s" by simp
  from take_fits [OF t len] t assms(2) show ?thesis
    by (intro munch_case [where k = 15 and c = "i + 14 < length input \<and>
         (take 15 (drop i input) = backslash @ jstr ''leftrightarrow'' \<or>
          take 15 (drop i input) = backslash @ jstr ''Leftrightarrow'')"])
      (auto simp: operatorCases_def)
qed

lemma munch_11:
  assumes "take (length s) (drop i input) = s"
    and "s \<in> set [backslash @ jstr ''rightarrow'', backslash @ jstr ''Rightarrow'']"
  shows "\<exists>t. tryReadOperator input i = Some t \<and> length s \<le> length t \<and>
    take (length t) (drop i input) = t"
proof -
  from assms(2) have len: "length s = 11" by auto
  with assms(1) have t: "take 11 (drop i input) = s" by simp
  from take_fits [OF t len] t assms(2) show ?thesis
    by (intro munch_case [where k = 11 and c = "i + 10 < length input \<and>
         (take 11 (drop i input) = backslash @ jstr ''rightarrow'' \<or>
          take 11 (drop i input) = backslash @ jstr ''Rightarrow'')"])
      (auto simp: operatorCases_def)
qed

lemma munch_7:
  assumes "take (length s) (drop i input) = s" and "s \<in> set [jstr ''implies'']"
  shows "\<exists>t. tryReadOperator input i = Some t \<and> length s \<le> length t \<and>
    take (length t) (drop i input) = t"
proof -
  from assms(2) have len: "length s = 7" by auto
  with assms(1) have t: "take 7 (drop i input) = s" by simp
  from take_fits [OF t len] t assms(2) show ?thesis
    by (intro munch_case [where k = 7 and c = "i + 6 < length input \<and>
         take 7 (drop i input) = jstr ''implies''"])
      (auto simp: operatorCases_def)
qed

lemma munch_6:
  assumes "take (length s) (drop i input) = s" and "s \<in> set [backslash @ jstr ''wedge'']"
  shows "\<exists>t. tryReadOperator input i = Some t \<and> length s \<le> length t \<and>
    take (length t) (drop i input) = t"
proof -
  from assms(2) have len: "length s = 6" by auto
  with assms(1) have t: "take 6 (drop i input) = s" by simp
  from take_fits [OF t len] t assms(2) show ?thesis
    by (intro munch_case [where k = 6 and c = "i + 5 < length input \<and>
         take 6 (drop i input) = backslash @ jstr ''wedge''"])
      (auto simp: operatorCases_def)
qed

lemma munch_5:
  assumes "take (length s) (drop i input) = s"
    and "s \<in> set [jstr ''false'', backslash @ jstr ''lnot'', backslash @ jstr ''lneg'',
      backslash @ jstr ''land'']"
  shows "\<exists>t. tryReadOperator input i = Some t \<and> length s \<le> length t \<and>
    take (length t) (drop i input) = t"
proof -
  from assms(2) have len: "length s = 5" by auto
  with assms(1) have t: "take 5 (drop i input) = s" by simp
  from take_fits [OF t len] t assms(2) show ?thesis
    by (intro munch_case [where k = 5 and c = "i + 4 < length input \<and>
         (take 5 (drop i input) = jstr ''false'' \<or> take 5 (drop i input) = backslash @ jstr ''lnot'' \<or>
          take 5 (drop i input) = backslash @ jstr ''lneg'' \<or>
          take 5 (drop i input) = backslash @ jstr ''land'')"])
      (auto simp: operatorCases_def)
qed

lemma munch_4:
  assumes "take (length s) (drop i input) = s"
    and "s \<in> set [jstr ''true'', backslash @ jstr ''top'', backslash @ jstr ''bot'',
      backslash @ jstr ''lor'', backslash @ jstr ''vee'', backslash @ jstr ''neg'']"
  shows "\<exists>t. tryReadOperator input i = Some t \<and> length s \<le> length t \<and>
    take (length t) (drop i input) = t"
proof -
  from assms(2) have len: "length s = 4" by auto
  with assms(1) have t: "take 4 (drop i input) = s" by simp
  from take_fits [OF t len] t assms(2) show ?thesis
    by (intro munch_case [where k = 4 and c = "i + 3 < length input \<and>
         (take 4 (drop i input) = jstr ''true'' \<or> take 4 (drop i input) = backslash @ jstr ''top'' \<or>
          take 4 (drop i input) = backslash @ jstr ''bot'' \<or> take 4 (drop i input) = backslash @ jstr ''lor'' \<or>
          take 4 (drop i input) = backslash @ jstr ''vee'' \<or>
          take 4 (drop i input) = backslash @ jstr ''neg'')"])
      (auto simp: operatorCases_def)
qed

lemma munch_3:
  assumes "take (length s) (drop i input) = s"
    and "s \<in> set [jstr ''<->'', jstr ''and'', jstr ''<=>'', jstr ''not'', jstr ''iff'',
      backslash @ jstr ''to'']"
  shows "\<exists>t. tryReadOperator input i = Some t \<and> length s \<le> length t \<and>
    take (length t) (drop i input) = t"
proof -
  from assms(2) have len: "length s = 3" by auto
  with assms(1) have t: "take 3 (drop i input) = s" by simp
  from take_fits [OF t len] t assms(2) show ?thesis
    by (intro munch_case [where k = 3 and c = "i + 2 < length input \<and>
         (take 3 (drop i input) = jstr ''<->'' \<or> take 3 (drop i input) = jstr ''and'' \<or>
          take 3 (drop i input) = jstr ''<=>'' \<or> take 3 (drop i input) = jstr ''not'' \<or>
          take 3 (drop i input) = jstr ''iff'' \<or>
          take 3 (drop i input) = backslash @ jstr ''to'')"])
      (auto simp: operatorCases_def)
qed

lemma munch_2:
  assumes "take (length s) (drop i input) = s"
    and "s \<in> set [jstr ''/'' @ backslash, backslash @ jstr ''/'', jstr ''->'', jstr ''&&'',
      jstr ''||'', jstr ''or'', jstr ''=>'']"
  shows "\<exists>t. tryReadOperator input i = Some t \<and> length s \<le> length t \<and>
    take (length t) (drop i input) = t"
proof -
  from assms(2) have len: "length s = 2" by auto
  with assms(1) have t: "take 2 (drop i input) = s" by simp
  from take_fits [OF t len] t assms(2) show ?thesis
    by (intro munch_case [where k = 2 and c = "i + 1 < length input \<and>
         (take 2 (drop i input) = jstr ''/'' @ backslash \<or> take 2 (drop i input) = backslash @ jstr ''/'' \<or>
          take 2 (drop i input) = jstr ''->'' \<or> take 2 (drop i input) = jstr ''&&'' \<or>
          take 2 (drop i input) = jstr ''||'' \<or> take 2 (drop i input) = jstr ''or'' \<or>
          take 2 (drop i input) = jstr ''=>'')"])
      (auto simp: operatorCases_def)
qed

lemma munch_1:
  assumes "take (length s) (drop i input) = s"
    and "s \<in> set [jstr ''('', jstr '')'', jstr ''~'', jstr ''T'', jstr ''F'', jstr ''^'', jstr ''!'',
      [8743], [8744], [8594], [8596], [8868], [8869], [172]]"
  shows "\<exists>t. tryReadOperator input i = Some t \<and> length s \<le> length t \<and>
    take (length t) (drop i input) = t"
proof -
  from assms(2) have "test singleOperatorClass s" and "length s = 1"
    by (auto simp: test_def singleOperatorClass_def jstr_def)
  with assms(1) have "take 1 (drop i input) = s" by simp
  with \<open>test singleOperatorClass s\<close> show ?thesis
    by (intro munch_case [where k = 1 and c = "test singleOperatorClass (charAt input i)"])
      (auto simp: operatorCases_def charAt_take)
qed

lemma munch_spelling:
  assumes "(s, kind) \<in> set specSpellings" and "take (length s) (drop i input) = s"
  shows "\<exists>t. tryReadOperator input i = Some t \<and> length s \<le> length t \<and>
    take (length t) (drop i input) = t"
proof -
  from assms(1) have "s \<in> fst ` set specSpellings" by force
  then consider
      "s \<in> set [backslash @ jstr ''leftrightarrow'', backslash @ jstr ''Leftrightarrow'']"
    | "s \<in> set [backslash @ jstr ''rightarrow'', backslash @ jstr ''Rightarrow'']"
    | "s \<in> set [jstr ''implies'']"
    | "s \<in> set [backslash @ jstr ''wedge'']"
    | "s \<in> set [jstr ''false'', backslash @ jstr ''lnot'', backslash @ jstr ''lneg'',
        backslash @ jstr ''land'']"
    | "s \<in> set [jstr ''true'', backslash @ jstr ''top'', backslash @ jstr ''bot'',
        backslash @ jstr ''lor'', backslash @ jstr ''vee'', backslash @ jstr ''neg'']"
    | "s \<in> set [jstr ''<->'', jstr ''and'', jstr ''<=>'', jstr ''not'', jstr ''iff'',
        backslash @ jstr ''to'']"
    | "s \<in> set [jstr ''/'' @ backslash, backslash @ jstr ''/'', jstr ''->'', jstr ''&&'',
        jstr ''||'', jstr ''or'', jstr ''=>'']"
    | "s \<in> set [jstr ''('', jstr '')'', jstr ''~'', jstr ''T'', jstr ''F'', jstr ''^'', jstr ''!'',
        [8743], [8744], [8594], [8596], [8868], [8869], [172]]"
    unfolding specSpellings_def by (simp only: list.set image_insert image_empty fst_conv) blast
  then show ?thesis
    using assms(2)
    by cases (rule munch_15 munch_11 munch_7 munch_6 munch_5 munch_4 munch_3 munch_2 munch_1; assumption)+
qed

lemma spelling_of_letters:
  "(s, kind) \<in> set specSpellings \<Longrightarrow> nameStartClass (hd s) \<Longrightarrow> list_all nameClass s"
  unfolding specSpellings_def
  by (auto simp: jstr_def backslash_def nameStartClass_def nameClass_def)

lemma spelling_not_empty: "(s, kind) \<in> set specSpellings \<Longrightarrow> s \<noteq> []"
  unfolding specSpellings_def by (auto simp: jstr_def backslash_def)

lemma takeWhile_covers_prefix:
  assumes "take (length s) xs = s" and "list_all P s"
  shows "length s \<le> length (takeWhile P xs)"
proof -
  have "xs = s @ drop (length s) xs" using assms(1) by (metis append_take_drop_id)
  then have "takeWhile P xs = s @ takeWhile P (drop (length s) xs)"
    using assms(2) by (metis list_all_iff takeWhile_append2)
  then show ?thesis by simp
qed

lemma munch_variable:
  assumes "(s, kind) \<in> set specSpellings" and "take (length s) (drop i input) = s"
    and "tryReadVariableName input i = Some v"
  shows "length s \<le> length v"
proof -
  note v = tryReadVariableName_Some [OF assms(3)]
  from spelling_not_empty [OF assms(1)] assms(2) v(1) have "hd s = input ! i"
    by (metis hd_drop_conv_nth hd_take length_greater_0_conv)
  with v(5) have "list_all nameClass s" by (intro spelling_of_letters [OF assms(1)]) simp
  from takeWhile_covers_prefix [OF assms(2) this] v(3) show ?thesis by simp
qed

text \<open>
  Claim C5. For every spelling of the table, the scan of an input that is exactly this
  spelling gives one token of the canonical kind, from 0 to the length of the spelling,
  followed by the end marker. And wherever a spelling of the table stands in an input,
  \<open>tryReadOperator\<close> at that position returns a lexeme that stands there and is at least as
  long, and a variable name that is read there instead is at least as long: the scanner
  never takes a shorter token than the spelling.
\<close>

theorem spellings_scanned_with_longest_match:
  "(\<forall>(s, kind) \<in> set specSpellings.
      scan s = Inr ([\<lparr>type = kind, index = None, start = 0, end' = length s\<rparr>,
                     \<lparr>type = kScannerConstants_EOF, index = None, start = length s,
                       end' = length s + 1\<rparr>], [])) \<and>
   (\<forall>(s, kind) \<in> set specSpellings. take (length s) (drop i input) = s \<longrightarrow>
      (\<exists>t. tryReadOperator input i = Some t \<and> length s \<le> length t \<and>
         take (length t) (drop i input) = t) \<and>
      (\<forall>v. tryReadVariableName input i = Some v \<longrightarrow> length s \<le> length v))"
proof (intro conjI)
  show "\<forall>(s, kind) \<in> set specSpellings.
      scan s = Inr ([\<lparr>type = kind, index = None, start = 0, end' = length s\<rparr>,
                     \<lparr>type = kScannerConstants_EOF, index = None, start = length s,
                       end' = length s + 1\<rparr>], [])"
    by (rule scan_specSpellings)
  show "\<forall>(s, kind) \<in> set specSpellings. take (length s) (drop i input) = s \<longrightarrow>
      (\<exists>t. tryReadOperator input i = Some t \<and> length s \<le> length t \<and>
         take (length t) (drop i input) = t) \<and>
      (\<forall>v. tryReadVariableName input i = Some v \<longrightarrow> length s \<le> length v)"
    using munch_spelling munch_variable by blast
qed

theorem spellings_scanned_with_longest_match_witness:
  "scan (jstr ''implies'') =
     Inr ([\<lparr>type = jstr ''->'', index = None, start = 0, end' = 7\<rparr>,
           \<lparr>type = jstr ''$'', index = None, start = 7, end' = 8\<rparr>], []) \<and>
   take 7 (drop 2 (jstr ''p implies q'')) = jstr ''implies'' \<and>
   (\<exists>t. tryReadOperator (jstr ''p implies q'') 2 = Some t \<and> 7 \<le> length t)"
proof -
  have m: "(jstr ''implies'', jstr ''->'') \<in> set specSpellings"
    by (simp add: specSpellings_def)
  have l: "length (jstr ''implies'') = 7"
    by simp
  have t: "take 7 (drop 2 (jstr ''p implies q'')) = jstr ''implies''"
    by (simp add: jstr_def)
  from spellings_scanned_with_longest_match [of 2 "jstr ''p implies q''"] m
  have "scan (jstr ''implies'') =
      Inr ([\<lparr>type = jstr ''->'', index = None, start = 0, end' = length (jstr ''implies'')\<rparr>,
            \<lparr>type = kScannerConstants_EOF, index = None, start = length (jstr ''implies''),
              end' = length (jstr ''implies'') + 1\<rparr>], [])"
    and "take (length (jstr ''implies'')) (drop 2 (jstr ''p implies q'')) = jstr ''implies'' \<longrightarrow>
      (\<exists>t. tryReadOperator (jstr ''p implies q'') 2 = Some t \<and> length (jstr ''implies'') \<le> length t \<and>
         take (length t) (drop 2 (jstr ''p implies q'')) = t)"
    by fast+
  then have "scan (jstr ''implies'') =
      Inr ([\<lparr>type = jstr ''->'', index = None, start = 0, end' = 7\<rparr>,
            \<lparr>type = jstr ''$'', index = None, start = 7, end' = 8\<rparr>], [])"
    and "\<exists>t. tryReadOperator (jstr ''p implies q'') 2 = Some t \<and> 7 \<le> length t"
    unfolding l using t by (auto simp: kScannerConstants_EOF_def)
  with t show ?thesis by blast
qed

section \<open>Chains of connectives of equal priority\<close>

text \<open>What \<open>parse\<close> does with the tokens and the variables that \<open>scan\<close> returns.\<close>

definition parseTokens :: "index token list \<Rightarrow> jstring list \<Rightarrow> failure + parseResult" where
  "parseTokens tokens names =
     (case parseLoop tokens ([], [], True) of
        Inl e \<Rightarrow> Inl e
      | Inr (operators, operands, needOperand) \<Rightarrow> finishParse operators operands names)"

lemma parse_parseTokens:
  "parse input =
     (case scan input of Inl e \<Rightarrow> Inl e | Inr scanResult \<Rightarrow> parseTokens (fst scanResult) (snd scanResult))"
  by (simp add: parse_def parseTokens_def split: sum.splits)

text \<open>The leaf for an operand token, and the node for the type string of a binary connective.\<close>

definition leaf :: "index token \<Rightarrow> ast" where
  "leaf token =
     (if type token = jstr ''T'' then trueNode
      else if type token = jstr ''F'' then falseNode
      else variableNode (case index token of None \<Rightarrow> OtherValue | Some i \<Rightarrow> i))"

definition binaryNode :: "jstring \<Rightarrow> ast \<Rightarrow> ast \<Rightarrow> ast" where
  "binaryNode ty lhs rhs =
     (if ty = jstr ''<->'' then iffNode lhs rhs
      else if ty = jstr ''->'' then impliesNode lhs rhs
      else if ty = backslash @ jstr ''/'' then orNode lhs rhs
      else andNode lhs rhs)"

lemma wrapOperand_leaf: "isOperand token \<Longrightarrow> wrapOperand token = Inr (leaf token)"
  by (auto simp: isOperand_def wrapOperand_def leaf_def)

lemma createOperatorNode_binaryNode:
  "isBinaryOperator token \<Longrightarrow> createOperatorNode lhs token rhs = Inr (binaryNode (type token) lhs rhs)"
  by (auto simp: isBinaryOperator_def createOperatorNode_def binaryNode_def)

text \<open>
  A chain: an operand, then connectives each followed by an operand. Its tree when the
  connectives group to the right.
\<close>

definition chain :: "index token \<Rightarrow> (index token \<times> index token) list \<Rightarrow> index token list" where
  "chain v rest = v # concat (map (\<lambda>(op, w). [op, w]) rest)"

fun rightGrouped :: "ast \<Rightarrow> (jstring \<times> ast) list \<Rightarrow> ast" where
  "rightGrouped a [] = a"
| "rightGrouped a ((ty, b) # rest) = binaryNode ty a (rightGrouped b rest)"

lemma operand_not_special:
  assumes "isOperand t"
  shows "\<not> isOpen t" and "\<not> isNegation t" and "\<not> isEOF t" and "\<not> isBinaryOperator t"
  using assms
  by (auto simp: isOperand_def isOpen_def isNegation_def isEOF_def isBinaryOperator_def
      kScannerConstants_EOF_def jstr_def backslash_def)

lemma parseToken_operand:
  assumes "isOperand v" and "noNegationOnTop operators"
  shows "parseToken v (operators, operands, True) = Inr (Continue (operators, leaf v # operands, False))"
  using assms by (simp add: parseToken_def wrapOperand_leaf addOperand_noNegation)

text \<open>A connective finds only connectives of its own priority on the stack: it is pushed.\<close>

lemma evaluateHigher_equal_priority:
  assumes "list_all (\<lambda>t. isBinaryOperator t \<and> priorityOf t = Inr p) operators"
    and "priorityOf op = Inr p"
  shows "evaluateHigher op operators operands = Inr (operators, operands)"
proof (cases operators)
  case Nil
  then show ?thesis by (subst evaluateHigher.simps) simp
next
  case (Cons a rest)
  with assms(1) have "isBinaryOperator a" "priorityOf a = Inr p" by simp_all
  with binary_kind(1) [of a] Cons assms(2) show ?thesis
    by (subst evaluateHigher.simps) (simp add: topOf_def isOpen_def)
qed

lemma parseToken_connective:
  assumes "list_all (\<lambda>t. isBinaryOperator t \<and> priorityOf t = Inr p) operators"
    and "isBinaryOperator op" and "priorityOf op = Inr p"
  shows "parseToken op (operators, operands, False) = Inr (Continue (op # operators, operands, True))"
  using assms binary_kind(3) [of op]
  by (simp add: parseToken_def evaluateHigher_equal_priority [OF assms(1,3)] isEOF_def)

lemma binary_stack_noNegation:
  "list_all (\<lambda>t. isBinaryOperator t \<and> priorityOf t = Inr p) operators \<Longrightarrow> noNegationOnTop operators"
  by (cases operators) (auto simp: noNegationOnTop_def binary_kind(2))

text \<open>The loop over a chain stacks all its connectives and all its operands.\<close>

lemma parseLoop_chain:
  assumes "list_all (\<lambda>t. isBinaryOperator t \<and> priorityOf t = Inr p) operators"
    and "isOperand v"
    and "list_all (\<lambda>(op, w). isBinaryOperator op \<and> priorityOf op = Inr p \<and> isOperand w) rest"
  shows "parseLoop (chain v rest @ tokens) (operators, operands, True) =
    parseLoop tokens (rev (map fst rest) @ operators,
      rev (map (\<lambda>(op, w). leaf w) rest) @ leaf v # operands, False)"
  using assms
proof (induction rest arbitrary: operators operands v)
  case Nil
  then show ?case
    by (simp add: chain_def parseToken_operand binary_stack_noNegation)
next
  case (Cons a rest)
  obtain op w where a: "a = (op, w)" by (cases a)
  from Cons.prems(3) a have op: "isBinaryOperator op" "priorityOf op = Inr p" and w: "isOperand w"
    and rest: "list_all (\<lambda>(op, w). isBinaryOperator op \<and> priorityOf op = Inr p \<and> isOperand w) rest"
    by simp_all
  have stack: "list_all (\<lambda>t. isBinaryOperator t \<and> priorityOf t = Inr p) (op # operators)"
    using op Cons.prems(1) by simp
  have "parseLoop (chain v (a # rest) @ tokens) (operators, operands, True) =
      parseLoop (chain w rest @ tokens) (op # operators, leaf v # operands, True)"
    using Cons.prems(1,2) op
    by (simp add: chain_def a parseToken_operand binary_stack_noNegation parseToken_connective)
  also have "\<dots> = parseLoop tokens (rev (map fst rest) @ op # operators,
      rev (map (\<lambda>(op, w). leaf w) rest) @ leaf w # leaf v # operands, False)"
    by (rule Cons.IH [OF stack w rest])
  finally show ?case by (simp add: a)
qed

text \<open>At the end marker the stacked connectives are evaluated from the top: to the right.\<close>

lemma evaluateHigher_eof_pop:
  assumes "isEOF eof" and "isBinaryOperator op" and "noNegationOnTop below"
  shows "evaluateHigher eof (op # below) (rhs # lhs # others) =
    evaluateHigher eof below (binaryNode (type op) lhs rhs # others)"
proof -
  from binary_kind(4) [OF assms(2)] obtain q where "priorityOf op = Inr q" "0 \<le> q" by blast
  with assms binary_kind(1) [OF assms(2)] eof_kind(5) [OF assms(1)] show ?thesis
    by (subst evaluateHigher.simps)
      (simp add: topOf_def isOpen_def createOperatorNode_binaryNode addOperand_noNegation)
qed

lemma evaluateHigher_eof_chain:
  assumes "isEOF eof" and "list_all (\<lambda>(op, b). isBinaryOperator op) rest"
    and "noNegationOnTop below"
  shows "evaluateHigher eof (rev (map fst rest) @ below) (rev (map snd rest) @ a # others) =
    evaluateHigher eof below (rightGrouped a (map (\<lambda>(op, b). (type op, b)) rest) # others)"
  using assms(2,3)
proof (induction rest arbitrary: a below others)
  case Nil
  then show ?case by simp
next
  case (Cons x rest)
  obtain op b where x: "x = (op, b)" by (cases x)
  from Cons.prems x have op: "isBinaryOperator op"
    and rest: "list_all (\<lambda>(op, b). isBinaryOperator op) rest" by simp_all
  have "noNegationOnTop (op # below)"
    using op by (simp add: noNegationOnTop_def binary_kind(2))
  from Cons.IH [OF rest this, of b "a # others"]
  have "evaluateHigher eof (rev (map fst (x # rest)) @ below) (rev (map snd (x # rest)) @ a # others) =
      evaluateHigher eof (op # below) (rightGrouped b (map (\<lambda>(op, b). (type op, b)) rest) # a # others)"
    by (simp add: x)
  also have "\<dots> = evaluateHigher eof below
      (binaryNode (type op) a (rightGrouped b (map (\<lambda>(op, b). (type op, b)) rest)) # others)"
    by (rule evaluateHigher_eof_pop [OF assms(1) op Cons.prems(2)])
  finally show ?case by (simp add: x)
qed

lemma parseTokens_chain:
  assumes "isOperand v" and "isEOF eof"
    and "list_all (\<lambda>(op, w). isBinaryOperator op \<and> priorityOf op = Inr p \<and> isOperand w) rest"
  shows "parseTokens (chain v rest @ [eof]) names =
    Inr \<lparr>ast = rightGrouped (leaf v) (map (\<lambda>(op, w). (type op, leaf w)) rest), variables = names\<rparr>"
proof -
  let ?pairs = "map (\<lambda>(op, w). (op, leaf w)) rest"
  let ?tree = "rightGrouped (leaf v) (map (\<lambda>(op, w). (type op, leaf w)) rest)"
  have pairs: "map fst ?pairs = map fst rest" "map snd ?pairs = map (\<lambda>(op, w). leaf w) rest"
    "map (\<lambda>(op, b). (type op, b)) ?pairs = map (\<lambda>(op, w). (type op, leaf w)) rest"
    by (simp_all add: case_prod_beta comp_def)
  have bin: "list_all (\<lambda>(op, b). isBinaryOperator op) ?pairs"
    using assms(3) by (auto simp: list_all_iff)
  have "evaluateHigher eof (rev (map fst ?pairs) @ []) (rev (map snd ?pairs) @ leaf v # []) =
      evaluateHigher eof [] [rightGrouped (leaf v) (map (\<lambda>(op, b). (type op, b)) ?pairs)]"
    by (rule evaluateHigher_eof_chain [OF assms(2) bin]) (simp add: noNegationOnTop_def)
  then have ev: "evaluateHigher eof (rev (map fst rest)) (rev (map (\<lambda>(op, w). leaf w) rest) @ [leaf v]) =
      Inr ([], [?tree])"
    unfolding pairs by (simp add: evaluateHigher.simps [of eof "[]"])
  have "parseLoop (chain v rest @ [eof]) ([], [], True) =
      parseLoop [eof] (rev (map fst rest) @ [], rev (map (\<lambda>(op, w). leaf w) rest) @ leaf v # [], False)"
    by (rule parseLoop_chain [OF _ assms(1,3)]) simp
  also have "\<dots> = Inr ([eof], [?tree], True)"
    using assms(2) eof_kind(3) [OF assms(2)]
    by (simp add: parseToken_def ev isEOF_def)
  finally show ?thesis
    using assms(2) by (simp add: parseTokens_def finishParse_def isEOF_def)
qed

lemma parse_p_and_q_and_r:
  "parse (jstr ''p and q and r'') =
     Inr \<lparr>ast = andNode (variableNode (Number 0))
            (andNode (variableNode (Number 1)) (variableNode (Number 2))),
          variables = [jstr ''p'', jstr ''q'', jstr ''r'']\<rparr>"
  by (simp add: scan_eval parse_eval)

text \<open>
  Claim C3. A chain of operands joined by binary connectives that all have the same
  priority parses to the tree that groups to the right, because a connective that arrives
  does not pop a connective of its own priority. In particular \<open>p and q and r\<close> parses to
  \<open>and(p, and(q, r))\<close>, which is not \<open>and(and(p, q), r)\<close>.
\<close>

theorem equal_priority_groups_to_the_right:
  "(isOperand v \<and> isEOF eof \<and>
    list_all (\<lambda>(op, w). isBinaryOperator op \<and> priorityOf op = Inr p \<and> isOperand w) rest \<longrightarrow>
      parseTokens (chain v rest @ [eof]) names =
        Inr \<lparr>ast = rightGrouped (leaf v) (map (\<lambda>(op, w). (type op, leaf w)) rest),
             variables = names\<rparr>) \<and>
   parse (jstr ''p and q and r'') =
     Inr \<lparr>ast = andNode (variableNode (Number 0))
            (andNode (variableNode (Number 1)) (variableNode (Number 2))),
          variables = [jstr ''p'', jstr ''q'', jstr ''r'']\<rparr> \<and>
   parse (jstr ''p and q and r'') \<noteq>
     Inr \<lparr>ast = andNode (andNode (variableNode (Number 0)) (variableNode (Number 1)))
            (variableNode (Number 2)),
          variables = [jstr ''p'', jstr ''q'', jstr ''r'']\<rparr>"
  using parseTokens_chain [of v eof p rest names] by (simp add: parse_p_and_q_and_r)

theorem equal_priority_groups_to_the_right_witness:
  "parseTokens
     [\<lparr>type = jstr ''variable'', index = Some (Number 0), start = 0, end' = 1\<rparr>,
      \<lparr>type = jstr ''->'', index = None, start = 2, end' = 4\<rparr>,
      \<lparr>type = jstr ''variable'', index = Some (Number 1), start = 5, end' = 6\<rparr>,
      \<lparr>type = jstr ''->'', index = None, start = 7, end' = 9\<rparr>,
      \<lparr>type = jstr ''F'', index = None, start = 10, end' = 11\<rparr>,
      \<lparr>type = jstr ''$'', index = None, start = 11, end' = 12\<rparr>] [jstr ''p'', jstr ''q''] =
   Inr \<lparr>ast = impliesNode (variableNode (Number 0)) (impliesNode (variableNode (Number 1)) falseNode),
        variables = [jstr ''p'', jstr ''q'']\<rparr>"
  using equal_priority_groups_to_the_right
    [of "\<lparr>type = jstr ''variable'', index = Some (Number 0), start = 0, end' = 1\<rparr>"
        "\<lparr>type = jstr ''$'', index = None, start = 11, end' = 12\<rparr>"
        1
        "[(\<lparr>type = jstr ''->'', index = None, start = 2, end' = 4\<rparr>,
           \<lparr>type = jstr ''variable'', index = Some (Number 1), start = 5, end' = 6\<rparr>),
          (\<lparr>type = jstr ''->'', index = None, start = 7, end' = 9\<rparr>,
           \<lparr>type = jstr ''F'', index = None, start = 10, end' = 11\<rparr>)]"
        "[jstr ''p'', jstr ''q'']"]
  by (simp add: chain_def isOperand_def isEOF_def isBinaryOperator_def priorityOf_def leaf_def
      binaryNode_def kScannerConstants_EOF_def jstr_def backslash_def)

section \<open>Displaying a tree and parsing the display\<close>

text \<open>
  \<open>toString\<close> writes the connectives and constants as HTML entities, for \<open>innerHTML\<close>.
  \<open>render\<close> is \<open>toString\<close> with a function applied to each entity; \<open>characterOf\<close> gives the
  character that an entity of \<open>toString\<close> denotes, and \<open>shown\<close> is the text of \<open>toString\<close>
  with each entity replaced by its character: the text that a browser shows.
\<close>

fun render :: "(jstring \<Rightarrow> jstring) \<Rightarrow> ast \<Rightarrow> jstring list \<Rightarrow> jstring" where
  "render f trueNode names = f (jstr ''&#8868;'')"
| "render f falseNode names = f (jstr ''&#8869;'')"
| "render f (negateNode underlying) names = f (jstr ''&not;'') @ render f underlying names"
| "render f (andNode lhs rhs) names =
     jstr ''('' @ render f lhs names @ jstr '' '' @ f (jstr ''&and;'') @ jstr '' '' @
     render f rhs names @ jstr '')''"
| "render f (orNode lhs rhs) names =
     jstr ''('' @ render f lhs names @ jstr '' '' @ f (jstr ''&or;'') @ jstr '' '' @
     render f rhs names @ jstr '')''"
| "render f (impliesNode lhs rhs) names =
     jstr ''('' @ render f lhs names @ jstr '' '' @ f (jstr ''&rarr;'') @ jstr '' '' @
     render f rhs names @ jstr '')''"
| "render f (iffNode lhs rhs) names =
     jstr ''('' @ render f lhs names @ jstr '' '' @ f (jstr ''&harr;'') @ jstr '' '' @
     render f rhs names @ jstr '')''"
| "render f (variableNode i) names =
     (case i of
        Number n \<Rightarrow> if n < length names then names ! n else jstr ''undefined''
      | ObjectPrototype \<Rightarrow> jstr ''undefined''
      | OtherValue \<Rightarrow> jstr ''undefined'')"

lemma toString_render: "toString node names = render (\<lambda>entity. entity) node names"
  by (induction node) (simp_all add: jstr_def)

definition characterOf :: "jstring \<Rightarrow> jstring" where
  "characterOf entity =
     (if entity = jstr ''&#8868;'' then [8868]
      else if entity = jstr ''&#8869;'' then [8869]
      else if entity = jstr ''&not;'' then [172]
      else if entity = jstr ''&and;'' then [8743]
      else if entity = jstr ''&or;'' then [8744]
      else if entity = jstr ''&rarr;'' then [8594]
      else if entity = jstr ''&harr;'' then [8596]
      else entity)"

definition shown :: "ast \<Rightarrow> jstring list \<Rightarrow> jstring" where
  "shown node names = render characterOf node names"

lemma shown_simps:
  "shown trueNode names = [8868]"
  "shown falseNode names = [8869]"
  "shown (negateNode underlying) names = 172 # shown underlying names"
  "shown (andNode lhs rhs) names = 40 # shown lhs names @ 32 # 8743 # 32 # shown rhs names @ [41]"
  "shown (orNode lhs rhs) names = 40 # shown lhs names @ 32 # 8744 # 32 # shown rhs names @ [41]"
  "shown (impliesNode lhs rhs) names = 40 # shown lhs names @ 32 # 8594 # 32 # shown rhs names @ [41]"
  "shown (iffNode lhs rhs) names = 40 # shown lhs names @ 32 # 8596 # 32 # shown rhs names @ [41]"
  "n < length names \<Longrightarrow> shown (variableNode (Number n)) names = names ! n"
  by (simp_all add: shown_def characterOf_def jstr_def)

text \<open>The indices that the variable nodes of a tree hold, from left to right.\<close>

fun leaves :: "ast \<Rightarrow> index list" where
  "leaves trueNode = []"
| "leaves falseNode = []"
| "leaves (negateNode underlying) = leaves underlying"
| "leaves (andNode lhs rhs) = leaves lhs @ leaves rhs"
| "leaves (orNode lhs rhs) = leaves lhs @ leaves rhs"
| "leaves (impliesNode lhs rhs) = leaves lhs @ leaves rhs"
| "leaves (iffNode lhs rhs) = leaves lhs @ leaves rhs"
| "leaves (variableNode i) = [i]"

text \<open>
  The tokens of the preliminary scan that the shown text of a tree consists of, when the
  text starts at position \<open>i\<close>.
\<close>

definition lexeme :: "jstring \<Rightarrow> nat \<Rightarrow> 'i token" where
  "lexeme ty i = \<lparr>type = ty, index = None, start = i, end' = i + 1\<rparr>"

fun lexemesAt :: "nat \<Rightarrow> ast \<Rightarrow> jstring list \<Rightarrow> jstring token list" where
  "lexemesAt i trueNode names = [lexeme (jstr ''T'') i]"
| "lexemesAt i falseNode names = [lexeme (jstr ''F'') i]"
| "lexemesAt i (negateNode underlying) names = lexeme (jstr ''~'') i # lexemesAt (i + 1) underlying names"
| "lexemesAt i (andNode lhs rhs) names =
     lexeme (jstr ''('') i # lexemesAt (i + 1) lhs names @
     lexeme (jstr ''/'' @ backslash) (i + length (shown lhs names) + 2) #
     lexemesAt (i + length (shown lhs names) + 4) rhs names @
     [lexeme (jstr '')'') (i + length (shown lhs names) + length (shown rhs names) + 4)]"
| "lexemesAt i (orNode lhs rhs) names =
     lexeme (jstr ''('') i # lexemesAt (i + 1) lhs names @
     lexeme (backslash @ jstr ''/'') (i + length (shown lhs names) + 2) #
     lexemesAt (i + length (shown lhs names) + 4) rhs names @
     [lexeme (jstr '')'') (i + length (shown lhs names) + length (shown rhs names) + 4)]"
| "lexemesAt i (impliesNode lhs rhs) names =
     lexeme (jstr ''('') i # lexemesAt (i + 1) lhs names @
     lexeme (jstr ''->'') (i + length (shown lhs names) + 2) #
     lexemesAt (i + length (shown lhs names) + 4) rhs names @
     [lexeme (jstr '')'') (i + length (shown lhs names) + length (shown rhs names) + 4)]"
| "lexemesAt i (iffNode lhs rhs) names =
     lexeme (jstr ''('') i # lexemesAt (i + 1) lhs names @
     lexeme (jstr ''<->'') (i + length (shown lhs names) + 2) #
     lexemesAt (i + length (shown lhs names) + 4) rhs names @
     [lexeme (jstr '')'') (i + length (shown lhs names) + length (shown rhs names) + 4)]"
| "lexemesAt i (variableNode idx) names =
     [makeVariableToken (shown (variableNode idx) names) i
        (i + length (shown (variableNode idx) names))]"

subsection \<open>The parser on the tokens of a shown tree\<close>

lemma invertVariables_upto:
  fixes names :: "jstring list"
  assumes "distinct names" and "k \<le> length names"
  shows "(\<forall>n < k. fold (\<lambda>i variableSet. variableSet(names ! i \<mapsto> i)) [0..<k] Map.empty (names ! n) = Some n) \<and>
    (\<forall>name. name \<notin> set (take k names) \<longrightarrow>
       fold (\<lambda>i variableSet. variableSet(names ! i \<mapsto> i)) [0..<k] Map.empty name = None)"
proof -
  define store :: "nat \<Rightarrow> (jstring \<rightharpoonup> nat) \<Rightarrow> (jstring \<rightharpoonup> nat)"
    where "store = (\<lambda>i variableSet. variableSet(names ! i \<mapsto> i))"
  have store: "store i m name = (if name = names ! i then Some i else m name)" for i m name
    by (simp add: store_def)
  have "(\<forall>n < k. fold store [0..<k] Map.empty (names ! n) = Some n) \<and>
    (\<forall>name. name \<notin> set (take k names) \<longrightarrow> fold store [0..<k] Map.empty name = None)"
    using assms(2)
  proof (induction k)
    case 0
    then show ?case by simp
  next
    case (Suc k)
    then have k: "k < length names" by simp
    then have "k \<le> length names" by simp
    define M where "M = fold store [0..<k] Map.empty"
    note IH = conjunct1 [OF Suc.IH [OF \<open>k \<le> length names\<close>], folded M_def]
      conjunct2 [OF Suc.IH [OF \<open>k \<le> length names\<close>], folded M_def]
    have step: "fold store [0..<Suc k] Map.empty = store k M"
      by (simp add: M_def)
    have "store k M (names ! n) = Some n" if "n < Suc k" for n
    proof (cases "n = k")
      case True
      then show ?thesis by (simp add: store)
    next
      case False
      with that have "n < k" by simp
      moreover from this k assms(1) have "names ! n \<noteq> names ! k"
        by (simp add: nth_eq_iff_index_eq)
      ultimately show ?thesis using IH(1) by (simp add: store)
    qed
    moreover have "store k M name = None"
      if "name \<notin> set (take (Suc k) names)" for name
      using that IH(2) k by (simp add: take_Suc_conv_app_nth store)
    ultimately show ?case unfolding step by blast
  qed
  then show ?thesis unfolding store_def .
qed

lemma invertVariables_nth:
  "distinct names \<Longrightarrow> n < length names \<Longrightarrow> invertVariables names (names ! n) = Some n"
  using invertVariables_upto [of names "length names"] by (simp add: invertVariables_def)

lemma invertVariables_None:
  "distinct names \<Longrightarrow> name \<notin> set names \<Longrightarrow> invertVariables names name = None"
  using invertVariables_upto [of names "length names"] by (simp add: invertVariables_def)

lemma renumberToken_lexeme:
  "ty \<noteq> jstr ''variable'' \<Longrightarrow> renumberToken variableSet (lexeme ty i) = lexeme ty i"
  by (simp add: renumberToken_def lexeme_def)

lemma renumberToken_variable:
  "distinct names \<Longrightarrow> n < length names \<Longrightarrow>
   renumberToken (invertVariables names) (makeVariableToken (names ! n) i e) =
     \<lparr>type = jstr ''variable'', index = Some (Number n), start = i, end' = e\<rparr>"
  by (simp add: renumberToken_def makeVariableToken_def getKey_def invertVariables_nth)

lemma parseToken_operand_leaf:
  "isOperand tok \<Longrightarrow>
   parseToken tok (operators, operands, True) =
     Inr (Continue (snd (addOperand (leaf tok) operands operators),
                    fst (addOperand (leaf tok) operands operators), False))"
  by (simp add: parseToken_def wrapOperand_leaf)

lemma parseToken_push:
  assumes "isNegation tok \<or> isOpen tok"
  shows "parseToken tok (operators, operands, True) = Inr (Continue (tok # operators, operands, True))"
proof -
  from assms have "\<not> isOperand tok"
    by (auto simp: isOperand_def isNegation_def isOpen_def jstr_def)
  with assms show ?thesis
    by (auto simp: parseToken_def isNegation_def isOpen_def)
qed

lemma parseToken_connective_in_parentheses:
  assumes "isBinaryOperator op" and "isOpen opn"
  shows "parseToken op (opn # operators, operands, False) =
    Inr (Continue (op # opn # operators, operands, True))"
proof -
  have "evaluateHigher op (opn # operators) operands = Inr (opn # operators, operands)"
    using assms(2) by (subst evaluateHigher.simps) (simp add: topOf_def isOpen_def)
  with assms(1) binary_kind(3) [OF assms(1)] show ?thesis
    by (simp add: parseToken_def isEOF_def)
qed

lemma parseToken_close:
  assumes "type cl = jstr '')''" and "isBinaryOperator op" and "isOpen opn"
  shows "parseToken cl (op # opn # operators, rhs # lhs # operands, False) =
    Inr (Continue (snd (addOperand (binaryNode (type op) lhs rhs) operands operators),
                   fst (addOperand (binaryNode (type op) lhs rhs) operands operators), False))"
proof -
  let ?node = "binaryNode (type op) lhs rhs"
  have notNeg: "\<not> isNegation opn" using assms(3) by (rule open_not_negation)
  have "closeParenthesis cl (opn # operators) (?node # operands) = Inr (operators, ?node # operands)"
    using assms(3) by (subst closeParenthesis.simps) (simp add: isOpen_def)
  moreover have "addOperand ?node operands (opn # operators) = (?node # operands, opn # operators)"
    using notNeg by (simp add: isNegation_def)
  ultimately have "closeParenthesis cl (op # opn # operators) (rhs # lhs # operands) =
      Inr (operators, ?node # operands)"
    using binary_kind(1,2) [OF assms(2)] createOperatorNode_binaryNode [OF assms(2)]
    by (subst closeParenthesis.simps) (simp add: isOpen_def isNegation_def)
  moreover have "\<not> isBinaryOperator cl" "type cl \<noteq> kScannerConstants_EOF"
    using assms(1)
    by (simp_all add: isBinaryOperator_def kScannerConstants_EOF_def jstr_def backslash_def)
  ultimately show ?thesis
    using assms(1) by (simp add: parseToken_def)
qed

lemma lexeme_kinds:
  "isOperand (lexeme (jstr ''T'') i)" "isOperand (lexeme (jstr ''F'') i)"
  "isNegation (lexeme (jstr ''~'') i)" "isOpen (lexeme (jstr ''('') i)"
  "isBinaryOperator (lexeme (jstr ''/'' @ backslash) i)"
  "isBinaryOperator (lexeme (backslash @ jstr ''/'') i)"
  "isBinaryOperator (lexeme (jstr ''->'') i)" "isBinaryOperator (lexeme (jstr ''<->'') i)"
  "type (lexeme ty i) = ty"
  "isOperand \<lparr>type = jstr ''variable'', index = Some idx, start = i, end' = e\<rparr>"
  by (simp_all add: lexeme_def isOperand_def isNegation_def isOpen_def isBinaryOperator_def)

lemma lexeme_leaf:
  "leaf (lexeme (jstr ''T'') i) = trueNode" "leaf (lexeme (jstr ''F'') i) = falseNode"
  "leaf \<lparr>type = jstr ''variable'', index = Some idx, start = i, end' = e\<rparr> = variableNode idx"
  by (simp_all add: leaf_def lexeme_def jstr_def)

lemma binaryNode_simps:
  "binaryNode (jstr ''/'' @ backslash) lhs rhs = andNode lhs rhs"
  "binaryNode (backslash @ jstr ''/'') lhs rhs = orNode lhs rhs"
  "binaryNode (jstr ''->'') lhs rhs = impliesNode lhs rhs"
  "binaryNode (jstr ''<->'') lhs rhs = iffNode lhs rhs"
  by (simp_all add: binaryNode_def jstr_def backslash_def)

lemma not_variable_type:
  "jstr ''T'' \<noteq> jstr ''variable''" "jstr ''F'' \<noteq> jstr ''variable''" "jstr ''~'' \<noteq> jstr ''variable''"
  "jstr ''('' \<noteq> jstr ''variable''" "jstr '')'' \<noteq> jstr ''variable''"
  "jstr ''/'' @ backslash \<noteq> jstr ''variable''" "backslash @ jstr ''/'' \<noteq> jstr ''variable''"
  "jstr ''->'' \<noteq> jstr ''variable''" "jstr ''<->'' \<noteq> jstr ''variable''"
  by (simp_all add: jstr_def backslash_def)

text \<open>
  The loop of the parser, on the tokens of a shown tree, adds the tree as an operand.
\<close>

lemma parseLoop_binary:
  fixes ty :: jstring and lhs rhs :: ast
  assumes op: "isBinaryOperator (lexeme ty j :: index token)" and ty: "ty \<noteq> jstr ''variable''"
    and lhs: "\<And>i rest operators operands.
      parseLoop (map rn (lexemesAt i lhs names) @ rest) (operators, operands, True) =
      parseLoop rest (snd (addOperand lhs operands operators), fst (addOperand lhs operands operators), False)"
    and rhs: "\<And>i rest operators operands.
      parseLoop (map rn (lexemesAt i rhs names) @ rest) (operators, operands, True) =
      parseLoop rest (snd (addOperand rhs operands operators), fst (addOperand rhs operands operators), False)"
    and rn: "rn = renumberToken variableSet"
  shows "parseLoop (map rn (lexeme (jstr ''('') i # lexemesAt i1 lhs names @ lexeme ty j #
      lexemesAt i2 rhs names @ [lexeme (jstr '')'') k]) @ rest) (operators, operands, True) =
    parseLoop rest (snd (addOperand (binaryNode ty lhs rhs) operands operators),
      fst (addOperand (binaryNode ty lhs rhs) operands operators), False)"
proof -
  let ?open = "lexeme (jstr ''('') i :: index token"
  let ?op = "lexeme ty j :: index token"
  let ?close = "lexeme (jstr '')'') k :: index token"
  have open_top: "addOperand node operands' (?open # operators') = (node # operands', ?open # operators')"
    for node operands' operators'
    by (simp add: lexeme_def jstr_def)
  have op_top: "addOperand node operands' (?op # operators') = (node # operands', ?op # operators')"
    for node operands' operators'
    using binary_kind(2) [OF op] by (simp add: isNegation_def)
  have "parseLoop (map rn (lexeme (jstr ''('') i # lexemesAt i1 lhs names @ lexeme ty j #
      lexemesAt i2 rhs names @ [lexeme (jstr '')'') k]) @ rest) (operators, operands, True) =
    parseLoop (map rn (lexemesAt i1 lhs names) @ ?op # map rn (lexemesAt i2 rhs names) @ ?close # rest)
      (?open # operators, operands, True)"
    by (simp add: rn renumberToken_lexeme not_variable_type ty parseToken_push lexeme_kinds)
  also have "\<dots> = parseLoop (?op # map rn (lexemesAt i2 rhs names) @ ?close # rest)
      (?open # operators, lhs # operands, False)"
    by (simp add: lhs open_top del: addOperand.simps)
  also have "\<dots> = parseLoop (map rn (lexemesAt i2 rhs names) @ ?close # rest)
      (?op # ?open # operators, lhs # operands, True)"
    by (simp add: parseToken_connective_in_parentheses [OF op] lexeme_kinds)
  also have "\<dots> = parseLoop (?close # rest) (?op # ?open # operators, rhs # lhs # operands, False)"
    by (simp add: rhs op_top del: addOperand.simps)
  also have "\<dots> = parseLoop rest (snd (addOperand (binaryNode ty lhs rhs) operands operators),
      fst (addOperand (binaryNode ty lhs rhs) operands operators), False)"
    by (simp add: parseToken_close [OF _ op] lexeme_kinds)
  finally show ?thesis .
qed

lemma parseLoop_shown:
  assumes "distinct names" and "\<forall>idx \<in> set (leaves node). \<exists>n < length names. idx = Number n"
  shows "parseLoop (map (renumberToken (invertVariables names)) (lexemesAt i node names) @ rest)
      (operators, operands, True) =
    parseLoop rest (snd (addOperand node operands operators),
      fst (addOperand node operands operators), False)"
  using assms(2)
proof (induction node arbitrary: i rest operators operands)
  case trueNode
  then show ?case
    by (simp add: renumberToken_lexeme not_variable_type parseToken_operand_leaf lexeme_kinds lexeme_leaf)
next
  case falseNode
  then show ?case
    by (simp add: renumberToken_lexeme not_variable_type parseToken_operand_leaf lexeme_kinds lexeme_leaf)
next
  case (negateNode node)
  have "addOperand node operands (lexeme (jstr ''~'') i # operators) =
      addOperand (negateNode node) operands operators"
    by (simp add: lexeme_def)
  with negateNode show ?case
    by (simp add: renumberToken_lexeme not_variable_type parseToken_push lexeme_kinds
        del: addOperand.simps)
next
  case (andNode lhs rhs)
  from andNode.prems have l: "\<forall>idx \<in> set (leaves lhs). \<exists>n < length names. idx = Number n"
    and r: "\<forall>idx \<in> set (leaves rhs). \<exists>n < length names. idx = Number n" by simp_all
  from parseLoop_binary [where ty = "jstr ''/'' @ backslash" and names = names,
      OF lexeme_kinds(5) not_variable_type(6) andNode.IH(1) [OF l] andNode.IH(2) [OF r] refl]
  show ?case by (simp add: binaryNode_simps)
next
  case (orNode lhs rhs)
  from orNode.prems have l: "\<forall>idx \<in> set (leaves lhs). \<exists>n < length names. idx = Number n"
    and r: "\<forall>idx \<in> set (leaves rhs). \<exists>n < length names. idx = Number n" by simp_all
  from parseLoop_binary [where ty = "backslash @ jstr ''/''" and names = names,
      OF lexeme_kinds(6) not_variable_type(7) orNode.IH(1) [OF l] orNode.IH(2) [OF r] refl]
  show ?case by (simp add: binaryNode_simps)
next
  case (impliesNode lhs rhs)
  from impliesNode.prems have l: "\<forall>idx \<in> set (leaves lhs). \<exists>n < length names. idx = Number n"
    and r: "\<forall>idx \<in> set (leaves rhs). \<exists>n < length names. idx = Number n" by simp_all
  from parseLoop_binary [where ty = "jstr ''->''" and names = names,
      OF lexeme_kinds(7) not_variable_type(8) impliesNode.IH(1) [OF l] impliesNode.IH(2) [OF r] refl]
  show ?case by (simp add: binaryNode_simps)
next
  case (iffNode lhs rhs)
  from iffNode.prems have l: "\<forall>idx \<in> set (leaves lhs). \<exists>n < length names. idx = Number n"
    and r: "\<forall>idx \<in> set (leaves rhs). \<exists>n < length names. idx = Number n" by simp_all
  from parseLoop_binary [where ty = "jstr ''<->''" and names = names,
      OF lexeme_kinds(8) not_variable_type(9) iffNode.IH(1) [OF l] iffNode.IH(2) [OF r] refl]
  show ?case by (simp add: binaryNode_simps)
next
  case (variableNode idx)
  then obtain n where n: "n < length names" "idx = Number n" by auto
  with assms(1) show ?case
    by (simp add: shown_simps renumberToken_variable parseToken_operand_leaf lexeme_kinds lexeme_leaf)
qed

subsection \<open>The scanner on the shown text of a tree\<close>

text \<open>The characters of which the shown text consists, apart from the names and the spaces.\<close>

definition glyphClass :: "nat \<Rightarrow> bool" where
  "glyphClass c =
     (c = 40 \<or> c = 41 \<or> c = 172 \<or> c = 8743 \<or> c = 8744 \<or> c = 8594 \<or> c = 8596 \<or>
      c = 8868 \<or> c = 8869)"

lemma multiLexemes_first:
  "\<forall>t \<in> set multiLexemes. hd t \<in> {92, 105, 102, 116, 60, 97, 110, 47, 45, 38, 124, 111, 61}"
  by (simp add: multiLexemes_def jstr_def backslash_def)

lemma glyphClass_plain:
  assumes "glyphClass c"
  shows "c \<noteq> 36" and "\<not> nameStartClass c" and "\<not> nameClass c" and "singleOperatorClass c"
    and "okayChars c" and "\<forall>t \<in> set multiLexemes. hd t \<noteq> c"
proof -
  from assms show "c \<noteq> 36" and "\<not> nameStartClass c" and "\<not> nameClass c" and "singleOperatorClass c"
    and "okayChars c"
    unfolding glyphClass_def
    by (elim disjE; simp add: nameStartClass_def nameClass_def singleOperatorClass_def okayChars_def)+
  from assms have "c \<notin> {92, 105, 102, 116, 60, 97, 110, 47, 45, 38, 124, 111, 61}"
    unfolding glyphClass_def by (elim disjE; simp)
  with multiLexemes_first show "\<forall>t \<in> set multiLexemes. hd t \<noteq> c" by blast
qed

lemma glyph_single:
  "glyphClass c \<Longrightarrow>
   [c] \<in> set [jstr ''('', jstr '')'', jstr ''~'', jstr ''T'', jstr ''F'', jstr ''^'', jstr ''!'',
      [8743], [8744], [8594], [8596], [8868], [8869], [172]]"
  unfolding glyphClass_def by (elim disjE; simp add: jstr_def)

lemma tryReadOperator_glyph:
  assumes "glyphClass c"
  shows "tryReadOperator (pre @ c # post) (length pre) = Some [c]"
proof -
  let ?input = "pre @ c # post"
  have "take (length [c]) (drop (length pre) ?input) = [c]" by simp
  from munch_1 [OF this glyph_single [OF assms]]
  obtain t where t: "tryReadOperator ?input (length pre) = Some t" by blast
  from tryReadOperator_SomeD [OF t] show ?thesis
  proof (elim disjE exE conjE)
    fix k
    assume k: "take k (drop (length pre) ?input) = t" "0 < k" and m: "t \<in> set multiLexemes"
    from k(2) obtain k' where "k = Suc k'" by (cases k) auto
    with k(1) have "hd t = c" by auto
    with glyphClass_plain(6) [OF assms] m show ?thesis by blast
  next
    assume "t = [?input ! length pre]"
    with t show ?thesis by simp
  qed
qed

lemma scan_glyph:
  assumes "glyphClass c"
  shows "preliminaryScanLoop (pre @ c # post) (length pre) variableSet tokens =
    preliminaryScanLoop (pre @ c # post) (length pre + 1) variableSet
      (tokens @ [lexeme (translate [c]) (length pre)])"
proof -
  let ?input = "pre @ c # post"
  have "charAt ?input (length pre) \<noteq> kScannerConstants_EOF"
    using glyphClass_plain(1) [OF assms] by (simp add: charAt_EOF_iff)
  moreover have "tryReadVariableName ?input (length pre) = None"
    using glyphClass_plain(2) [OF assms] by (simp add: tryReadVariableName_def test_charAt)
  ultimately show ?thesis
    using scan_step_operator [OF _ _ tryReadOperator_glyph [OF assms], of pre post variableSet tokens]
    by (simp add: makeIdentityToken_def lexeme_def)
qed

lemma scan_space:
  "preliminaryScanLoop (pre @ 32 # post) (length pre) variableSet tokens =
   preliminaryScanLoop (pre @ 32 # post) (length pre + 1) variableSet tokens"
proof -
  let ?input = "pre @ 32 # post"
  have ws: "whitespaceClass (?input ! length pre)" by (simp add: whitespaceClass_def)
  note plain = whitespaceClass_plain [OF ws]
  have notEOF: "charAt ?input (length pre) \<noteq> kScannerConstants_EOF"
    using plain by (simp add: charAt_EOF_iff)
  have noVar: "tryReadVariableName ?input (length pre) = None"
    using plain by (simp add: tryReadVariableName_def test_charAt)
  have noOp: "tryReadOperator ?input (length pre) = None"
    using tryReadOperator_plain(5) [of ?input "length pre"] ws
    by (cases "tryReadOperator ?input (length pre)") auto
  have "isWhitespace (charAt ?input (length pre))"
    using ws by (simp add: isWhitespace_def test_charAt)
  from scan_step_whitespace [OF notEOF noVar noOp this] show ?thesis .
qed

text \<open>The names that \<open>tryReadVariableName\<close> accepts.\<close>

definition variableName :: "jstring \<Rightarrow> bool" where
  "variableName v = (v \<noteq> [] \<and> nameStartClass (hd v) \<and> list_all nameClass v \<and> \<not> isReservedWord v)"

lemma tryReadVariableName_name:
  assumes "variableName v" and "post \<noteq> []" and "\<not> nameClass (hd post)"
  shows "tryReadVariableName (pre @ v @ post) (length pre) = Some v"
proof -
  from assms(1) have v: "v \<noteq> []" "nameStartClass (hd v)" "list_all nameClass v" "\<not> isReservedWord v"
    by (simp_all add: variableName_def)
  have "takeWhile nameClass (v @ post) = v"
    using v(3) assms(2,3) by (cases post) (simp_all add: list_all_iff takeWhile_append2)
  moreover have "(pre @ v @ post) ! length pre = hd v"
    using v(1) by (cases v) simp_all
  ultimately show ?thesis
    using v by (simp add: tryReadVariableName_def test_charAt readNameChars_eq)
qed

lemma variableName_no_marker: "variableName v \<Longrightarrow> hd v \<noteq> 36"
  by (auto simp: variableName_def nameStartClass_def)

lemma scan_name:
  assumes "variableName v" and "post \<noteq> []" and "\<not> nameClass (hd post)"
  shows "preliminaryScanLoop (pre @ v @ post) (length pre) variableSet tokens =
    preliminaryScanLoop (pre @ v @ post) (length pre + length v) (setKey variableSet v)
      (tokens @ [makeVariableToken v (length pre) (length pre + length v)])"
proof -
  from assms(1) have "v \<noteq> []" by (simp add: variableName_def)
  then have "(pre @ v @ post) ! length pre = hd v" by (cases v) simp_all
  then have "charAt (pre @ v @ post) (length pre) \<noteq> kScannerConstants_EOF"
    using variableName_no_marker [OF assms(1)] by (simp add: charAt_EOF_iff)
  from scan_step_variable [OF this tryReadVariableName_name [OF assms]] show ?thesis .
qed

lemma translate_glyph:
  "translate [40] = jstr ''(''" "translate [41] = jstr '')''" "translate [172] = jstr ''~''"
  "translate [8743] = jstr ''/'' @ backslash" "translate [8744] = backslash @ jstr ''/''"
  "translate [8594] = jstr ''->''" "translate [8596] = jstr ''<->''"
  "translate [8868] = jstr ''T''" "translate [8869] = jstr ''F''"
  by (simp_all add: translate_def jstr_def backslash_def)

lemma plus_small:
  "(x::nat) + 3 = Suc (Suc (Suc x))" "(x::nat) + 4 = Suc (Suc (Suc (Suc x)))"
  "(x::nat) + 5 = Suc (Suc (Suc (Suc (Suc x))))"
  by simp_all

text \<open>
  The scanner on the shown text of a binary node, when it reads the shown texts of both
  children as stated: \<open>L\<close> and \<open>R\<close> are the texts, \<open>fl\<close> and \<open>fr\<close> what they add to the set of
  variables, \<open>tokl\<close> and \<open>tokr\<close> their tokens.
\<close>

lemma scan_binary:
  assumes g: "glyphClass g"
    and lhs: "\<And>pre post variableSet tokens. post \<noteq> [] \<Longrightarrow> \<not> nameClass (hd post) \<Longrightarrow>
      preliminaryScanLoop (pre @ L @ post) (length pre) variableSet tokens =
      preliminaryScanLoop (pre @ L @ post) (length pre + length L) (fl variableSet)
        (tokens @ tokl (length pre))"
    and rhs: "\<And>pre post variableSet tokens. post \<noteq> [] \<Longrightarrow> \<not> nameClass (hd post) \<Longrightarrow>
      preliminaryScanLoop (pre @ R @ post) (length pre) variableSet tokens =
      preliminaryScanLoop (pre @ R @ post) (length pre + length R) (fr variableSet)
        (tokens @ tokr (length pre))"
  shows "preliminaryScanLoop (pre @ (40 # L @ 32 # g # 32 # R @ [41]) @ post) (length pre) variableSet tokens =
    preliminaryScanLoop (pre @ (40 # L @ 32 # g # 32 # R @ [41]) @ post)
      (length pre + length (40 # L @ 32 # g # 32 # R @ [41])) (fr (fl variableSet))
      (tokens @ lexeme (jstr ''('') (length pre) # tokl (length pre + 1) @
         lexeme (translate [g]) (length pre + length L + 2) # tokr (length pre + length L + 4) @
         [lexeme (jstr '')'') (length pre + length L + length R + 4)])"
proof -
  define input where "input = pre @ (40 # L @ 32 # g # 32 # R @ [41]) @ post"
  let ?n = "length pre"
  let ?t1 = "tokens @ [lexeme (jstr ''('') ?n]"
  let ?t2 = "?t1 @ tokl (?n + 1)"
  let ?t3 = "?t2 @ [lexeme (translate [g]) (?n + length L + 2)]"
  let ?t4 = "?t3 @ tokr (?n + length L + 4)"
  let ?t5 = "?t4 @ [lexeme (jstr '')'') (?n + length L + length R + 4)]"
  have paren: "glyphClass 40" "glyphClass 41" by (simp_all add: glyphClass_def)
  have space: "\<not> nameClass 32" "\<not> nameClass 41" by (simp_all add: nameClass_def)
  have "preliminaryScanLoop input ?n variableSet tokens = preliminaryScanLoop input (?n + 1) variableSet ?t1"
    using scan_glyph [OF paren(1), of pre "L @ 32 # g # 32 # R @ 41 # post" variableSet tokens]
    by (simp add: input_def translate_glyph add.assoc plus_small)
  also have "\<dots> = preliminaryScanLoop input (?n + 1 + length L) (fl variableSet) ?t2"
    using lhs [of "32 # g # 32 # R @ 41 # post" "pre @ [40]" variableSet ?t1] space
    by (simp add: input_def add.assoc plus_small)
  also have "\<dots> = preliminaryScanLoop input (?n + length L + 2) (fl variableSet) ?t2"
    using scan_space [of "pre @ 40 # L" "g # 32 # R @ 41 # post" "fl variableSet" ?t2]
    by (simp add: input_def add.assoc plus_small)
  also have "\<dots> = preliminaryScanLoop input (?n + length L + 3) (fl variableSet) ?t3"
    using scan_glyph [OF g, of "pre @ 40 # L @ [32]" "32 # R @ 41 # post" "fl variableSet" ?t2]
    by (simp add: input_def add.assoc plus_small)
  also have "\<dots> = preliminaryScanLoop input (?n + length L + 4) (fl variableSet) ?t3"
    using scan_space [of "pre @ 40 # L @ [32, g]" "R @ 41 # post" "fl variableSet" ?t3]
    by (simp add: input_def add.assoc plus_small)
  also have "\<dots> = preliminaryScanLoop input (?n + length L + 4 + length R) (fr (fl variableSet)) ?t4"
    using rhs [of "41 # post" "pre @ 40 # L @ [32, g, 32]" "fl variableSet" ?t3] space
    by (simp add: input_def add.assoc plus_small)
  also have "\<dots> = preliminaryScanLoop input (?n + length L + length R + 5) (fr (fl variableSet)) ?t5"
    using scan_glyph [OF paren(2), of "pre @ 40 # L @ 32 # g # 32 # R" post "fr (fl variableSet)" ?t4]
    by (simp add: input_def translate_glyph add.assoc plus_small)
  finally show ?thesis
    by (simp add: input_def add.assoc plus_small)
qed

lemma scan_shown:
  assumes "\<forall>idx \<in> set (leaves node). \<exists>n < length names. idx = Number n"
    and "\<forall>v \<in> set names. variableName v" and "post \<noteq> []" and "\<not> nameClass (hd post)"
  shows "preliminaryScanLoop (pre @ shown node names @ post) (length pre) variableSet tokens =
    preliminaryScanLoop (pre @ shown node names @ post) (length pre + length (shown node names))
      (foldl setKey variableSet (map (\<lambda>idx. shown (variableNode idx) names) (leaves node)))
      (tokens @ lexemesAt (length pre) node names)"
  using assms(1,3,4)
proof (induction node arbitrary: pre post variableSet tokens)
  case trueNode
  have "glyphClass 8868" by (simp add: glyphClass_def)
  from scan_glyph [OF this, of pre post variableSet tokens] show ?case
    by (simp add: shown_simps translate_glyph)
next
  case falseNode
  have "glyphClass 8869" by (simp add: glyphClass_def)
  from scan_glyph [OF this, of pre post variableSet tokens] show ?case
    by (simp add: shown_simps translate_glyph)
next
  case (negateNode node)
  have "glyphClass 172" by (simp add: glyphClass_def)
  from scan_glyph [OF this, of pre "shown node names @ post" variableSet tokens]
    negateNode.IH [of post "pre @ [172]" variableSet "tokens @ [lexeme (jstr ''~'') (length pre)]"]
    negateNode.prems
  show ?case by (simp add: shown_simps translate_glyph)
next
  case (andNode lhs rhs)
  from andNode.prems(1) have l: "\<forall>idx \<in> set (leaves lhs). \<exists>n < length names. idx = Number n"
    and r: "\<forall>idx \<in> set (leaves rhs). \<exists>n < length names. idx = Number n" by simp_all
  have "glyphClass 8743" by (simp add: glyphClass_def)
  from scan_binary [OF this andNode.IH(1) [OF l] andNode.IH(2) [OF r], of pre post variableSet tokens]
  show ?case by (simp add: shown_simps translate_glyph add.assoc plus_small)
next
  case (orNode lhs rhs)
  from orNode.prems(1) have l: "\<forall>idx \<in> set (leaves lhs). \<exists>n < length names. idx = Number n"
    and r: "\<forall>idx \<in> set (leaves rhs). \<exists>n < length names. idx = Number n" by simp_all
  have "glyphClass 8744" by (simp add: glyphClass_def)
  from scan_binary [OF this orNode.IH(1) [OF l] orNode.IH(2) [OF r], of pre post variableSet tokens]
  show ?case by (simp add: shown_simps translate_glyph add.assoc plus_small)
next
  case (impliesNode lhs rhs)
  from impliesNode.prems(1) have l: "\<forall>idx \<in> set (leaves lhs). \<exists>n < length names. idx = Number n"
    and r: "\<forall>idx \<in> set (leaves rhs). \<exists>n < length names. idx = Number n" by simp_all
  have "glyphClass 8594" by (simp add: glyphClass_def)
  from scan_binary [OF this impliesNode.IH(1) [OF l] impliesNode.IH(2) [OF r], of pre post variableSet tokens]
  show ?case by (simp add: shown_simps translate_glyph add.assoc plus_small)
next
  case (iffNode lhs rhs)
  from iffNode.prems(1) have l: "\<forall>idx \<in> set (leaves lhs). \<exists>n < length names. idx = Number n"
    and r: "\<forall>idx \<in> set (leaves rhs). \<exists>n < length names. idx = Number n" by simp_all
  have "glyphClass 8596" by (simp add: glyphClass_def)
  from scan_binary [OF this iffNode.IH(1) [OF l] iffNode.IH(2) [OF r], of pre post variableSet tokens]
  show ?case by (simp add: shown_simps translate_glyph add.assoc plus_small)
next
  case (variableNode idx)
  then obtain n where n: "n < length names" "idx = Number n" by auto
  with assms(2) have "variableName (names ! n)" by simp
  from scan_name [OF this variableNode.prems(2,3), of pre variableSet tokens] n show ?case
    by (simp add: shown_simps)
qed

subsection \<open>Parsing the shown text of a tree\<close>

lemma nameClass_okay: "nameClass c \<Longrightarrow> okayChars c"
  by (simp add: okayChars_def)

lemma shown_okay:
  assumes "\<forall>idx \<in> set (leaves node). \<exists>n < length names. idx = Number n"
    and "\<forall>v \<in> set names. variableName v"
  shows "list_all okayChars (shown node names)"
  using assms(1)
proof (induction node)
  case (variableNode idx)
  then obtain n where n: "n < length names" "idx = Number n" by auto
  with assms(2) have "list_all nameClass (names ! n)" by (simp add: variableName_def)
  with n show ?case by (auto simp: shown_simps list_all_iff nameClass_okay)
qed (simp_all add: shown_simps okayChars_def whitespaceClass_def)

lemma checkIntegrity_okay: "list_all okayChars input \<Longrightarrow> checkIntegrity input = Inr ()"
  unfolding checkIntegrity_def
  by (rule checkIntegrityLoop_okay) (simp add: list_all_length)

lemma foldl_setKey:
  assumes "distinct variableSet"
  shows "distinct (foldl setKey variableSet vs) \<and>
    set (foldl setKey variableSet vs) = set variableSet \<union> (set vs - {jstr ''__proto__''})"
  using assms
proof (induction vs arbitrary: variableSet)
  case Nil
  then show ?case by simp
next
  case (Cons v vs)
  have "distinct (setKey variableSet v)"
    and "set (setKey variableSet v) = set variableSet \<union> ({v} - {jstr ''__proto__''})"
    using Cons.prems by (auto simp: setKey_def)
  with Cons.IH [of "setKey variableSet v"] show ?case by auto
qed

lemma sort_unique:
  fixes names :: "jstring list"
  assumes "sorted names" and "distinct names" and "distinct keys" and "set keys = set names"
  shows "sort keys = names"
  using assms by (intro sorted_distinct_set_unique) simp_all

lemma preliminaryScan_shown:
  assumes "\<forall>idx \<in> set (leaves node). \<exists>n < length names. idx = Number n"
    and "\<forall>v \<in> set names. variableName v"
  shows "preliminaryScan (shown node names) =
    Inr (lexemesAt 0 node names @ [lexeme kScannerConstants_EOF (length (shown node names))],
      foldl setKey [] (map (\<lambda>idx. shown (variableNode idx) names) (leaves node)))"
proof -
  have eof: "kScannerConstants_EOF = [36]" by (simp add: kScannerConstants_EOF_def jstr_def)
  have "\<not> nameClass (hd [36])" by (simp add: nameClass_def)
  from scan_shown [OF assms _ this, of "[]" "[]" "[]"]
  have "preliminaryScanLoop (shown node names @ [36]) 0 [] [] =
      preliminaryScanLoop (shown node names @ [36]) (length (shown node names))
        (foldl setKey [] (map (\<lambda>idx. shown (variableNode idx) names) (leaves node)))
        (lexemesAt 0 node names)"
    by simp
  moreover have "charAt (shown node names @ [36]) (length (shown node names)) = kScannerConstants_EOF"
    by (simp add: charAt_EOF_iff)
  moreover have "makeIdentityToken kScannerConstants_EOF i = lexeme kScannerConstants_EOF i" for i
    by (simp add: makeIdentityToken_def lexeme_def translate_def eof jstr_def backslash_def)
  ultimately show ?thesis
    by (simp add: preliminaryScan_def eof scan_step_eof [unfolded eof])
qed

text \<open>
  A tree over a sorted list of variable names, none of them \<open>__proto__\<close>, in which every
  name of the list occurs: the shown text of the tree parses to the tree and the list.
\<close>

lemma parse_shown:
  assumes "sorted names" and "distinct names" and "\<forall>v \<in> set names. variableName v"
    and "jstr ''__proto__'' \<notin> set names"
    and "set (leaves node) = Number ` {0..<length names}"
  shows "parse (shown node names) = Inr \<lparr>ast = node, variables = names\<rparr>"
proof -
  from assms(5) have wf: "\<forall>idx \<in> set (leaves node). \<exists>n < length names. idx = Number n"
    by auto
  let ?keys = "foldl setKey [] (map (\<lambda>idx. shown (variableNode idx) names) (leaves node))"
  let ?eof = "lexeme kScannerConstants_EOF (length (shown node names))"
  have "set (map (\<lambda>idx. shown (variableNode idx) names) (leaves node)) =
      (\<lambda>n. names ! n) ` {0..<length names}"
    unfolding set_map assms(5) image_image by (intro image_cong) (simp_all add: shown_simps)
  also have "\<dots> = set names"
    by (metis atLeast0LessThan map_nth set_map set_upt)
  finally have occurring: "set (map (\<lambda>idx. shown (variableNode idx) names) (leaves node)) = set names" .
  have keys: "distinct ?keys" "set ?keys = set names"
    using foldl_setKey [of "[]" "map (\<lambda>idx. shown (variableNode idx) names) (leaves node)"]
      occurring assms(4) by auto
  have sorted: "sort ?keys = names"
    by (rule sort_unique [OF assms(1,2) keys])
  have "checkIntegrity (shown node names) = Inr ()"
    by (rule checkIntegrity_okay [OF shown_okay [OF wf assms(3)]])
  then have scan: "scan (shown node names) =
      Inr (map (renumberToken (invertVariables names)) (lexemesAt 0 node names) @
        [renumberToken (invertVariables names) ?eof], names)"
    by (simp add: scan_def preliminaryScan_shown [OF wf assms(3)] numberVariables_def sorted Let_def)
  have eof: "renumberToken (invertVariables names) ?eof = lexeme kScannerConstants_EOF (length (shown node names))"
    by (rule renumberToken_lexeme) (simp add: kScannerConstants_EOF_def jstr_def)
  have isEOF: "isEOF (lexeme kScannerConstants_EOF (length (shown node names)))"
    by (simp add: isEOF_def lexeme_def)
  have "parseLoop (map (renumberToken (invertVariables names)) (lexemesAt 0 node names) @
      [lexeme kScannerConstants_EOF (length (shown node names))]) ([], [], True) =
    parseLoop [lexeme kScannerConstants_EOF (length (shown node names))] ([], [node], False)"
    using parseLoop_shown [OF assms(2) wf, of 0 _ "[]" "[]"] by simp
  also have "\<dots> = Inr ([lexeme kScannerConstants_EOF (length (shown node names))], [node], True)"
    using isEOF eof_kind(3) [OF isEOF]
    by (simp add: parseToken_def isEOF_def evaluateHigher.simps [of _ "[]"])
  finally show ?thesis
    using isEOF by (simp add: parse_def scan eof finishParse_def isEOF_def)
qed

end
